theory Spec2Isabelle
  imports Main
begin

section \<open>Strings as the executor uses them\<close>

text \<open>
  The prompt compiler lives in the class \<open>RealMCPExecutor\<close> of
  \<open>src/tests/logout-login.spec.ts\<close>. Its texts are modelled as \<open>string\<close> (a list of
  8-bit characters). Lower-casing maps \<open>A\<close>..\<open>Z\<close> to \<open>a\<close>..\<open>z\<close> and leaves every
  other character alone, white space is the set \<open>\t \n \v \f \r\<close> and the blank, and the
  line terminators are \<open>\n\<close> and \<open>\r\<close>: this is what JavaScript does on ASCII text.
\<close>

definition lower_char :: "char \<Rightarrow> char" where
  "lower_char c =
     (let n = (of_char c :: nat) in if 65 \<le> n \<and> n \<le> 90 then char_of (n + 32) else c)"

definition toLowerCase :: "string \<Rightarrow> string" where
  "toLowerCase s = map lower_char s"

definition is_space :: "char \<Rightarrow> bool" where
  "is_space c = ((of_char c :: nat) \<in> {9, 10, 11, 12, 13, 32})"

definition trim :: "string \<Rightarrow> string" where
  "trim s = rev (dropWhile is_space (rev (dropWhile is_space s)))"

fun starts_with :: "string \<Rightarrow> string \<Rightarrow> bool" where
  "starts_with s [] = True"
| "starts_with [] (p # ps) = False"
| "starts_with (c # cs) (p # ps) = (c = p \<and> starts_with cs ps)"

text \<open>\<open>s.includes(t)\<close>: \<open>t\<close> occurs in \<open>s\<close> at some position.\<close>

fun includes_str :: "string \<Rightarrow> string \<Rightarrow> bool" where
  "includes_str [] t = (t = [])"
| "includes_str (c # cs) t = (starts_with (c # cs) t \<or> includes_str cs t)"

text \<open>\<open>s.split(d)\<close> for a one-character separator; the empty text gives one empty piece.\<close>

fun split_on :: "char \<Rightarrow> string \<Rightarrow> string list" where
  "split_on d [] = [[]]"
| "split_on d (c # cs) =
     (if c = d then [] # split_on d cs
      else (case split_on d cs of [] \<Rightarrow> [[c]] | x # xs \<Rightarrow> (c # x) # xs))"

definition newline :: char where
  "newline = CHR 0x0A"

definition lines_of :: "string \<Rightarrow> string list" where
  "lines_of s = split_on newline s"

text \<open>Decimal rendering of a number inside a template literal, and \<open>parseInt\<close> on digits.\<close>

definition digit_char :: "nat \<Rightarrow> char" where
  "digit_char d = char_of (48 + d)"

fun showNat_aux :: "nat \<Rightarrow> nat \<Rightarrow> string \<Rightarrow> string" where
  "showNat_aux 0 n acc = acc"
| "showNat_aux (Suc k) n acc =
     (if n < 10 then digit_char n # acc
      else showNat_aux k (n div 10) (digit_char (n mod 10) # acc))"

definition showNat :: "nat \<Rightarrow> string" where
  "showNat n = showNat_aux (Suc n) n []"

definition is_digit :: "char \<Rightarrow> bool" where
  "is_digit c = (let n = (of_char c :: nat) in 48 \<le> n \<and> n \<le> 57)"

definition parseInt :: "string \<Rightarrow> nat" where
  "parseInt ds = foldl (\<lambda>a c. 10 * a + ((of_char c :: nat) - 48)) 0 ds"

text \<open>
  \<open>a || b\<close> on values that are a string or \<open>undefined\<close>: the empty string and
  \<open>undefined\<close> are falsy. \<open>tmpl\<close> is the rendering inside a template literal.
\<close>

definition truthy :: "string option \<Rightarrow> bool" where
  "truthy v = (case v of None \<Rightarrow> False | Some s \<Rightarrow> s \<noteq> [])"

definition js_or :: "string option \<Rightarrow> string option \<Rightarrow> string option" where
  "js_or a b = (if truthy a then a else b)"

definition tmpl :: "string option \<Rightarrow> string" where
  "tmpl v = (case v of None \<Rightarrow> ''undefined'' | Some s \<Rightarrow> s)"

text \<open>\<open>v || ''\<close>.\<close>

definition or_empty :: "string option \<Rightarrow> string" where
  "or_empty v = (case v of None \<Rightarrow> [] | Some s \<Rightarrow> s)"

section \<open>Regular expressions with backtracking\<close>

text \<open>
  The source's regular expressions only repeat character classes, so a pattern is a
  term of \<open>rx\<close>. \<open>rx_run r (s, g)\<close> lists every way \<open>r\<close> can match at the front of
  \<open>s\<close>, as the pair of the text left and the capture groups, in the order in which a
  backtracking matcher tries them (greedy repetition first the longest, alternatives
  left to right). The head of the list is the match JavaScript reports.
\<close>

type_synonym caps = "nat \<Rightarrow> string option"

datatype rx =
    Eps
  | Cls "char \<Rightarrow> bool"
  | Star "char \<Rightarrow> bool"
  | Plus "char \<Rightarrow> bool"
  | Seq rx rx
  | Alt rx rx
  | Opt rx
  | Grp nat rx

fun rx_star :: "(char \<Rightarrow> bool) \<Rightarrow> string \<Rightarrow> string list" where
  "rx_star p [] = [[]]"
| "rx_star p (c # cs) = (if p c then rx_star p cs @ [c # cs] else [c # cs])"

fun rx_run :: "rx \<Rightarrow> string \<times> caps \<Rightarrow> (string \<times> caps) list" where
  "rx_run Eps st = [st]"
| "rx_run (Cls p) (s, g) = (case s of [] \<Rightarrow> [] | c # r \<Rightarrow> if p c then [(r, g)] else [])"
| "rx_run (Star p) (s, g) = map (\<lambda>r. (r, g)) (rx_star p s)"
| "rx_run (Plus p) (s, g) =
     (case s of [] \<Rightarrow> [] | c # r \<Rightarrow> if p c then map (\<lambda>r'. (r', g)) (rx_star p r) else [])"
| "rx_run (Seq a b) st = concat (map (rx_run b) (rx_run a st))"
| "rx_run (Alt a b) st = rx_run a st @ rx_run b st"
| "rx_run (Opt a) st = rx_run a st @ [st]"
| "rx_run (Grp n a) (s, g) =
     map (\<lambda>(r, g'). (r, g'(n \<mapsto> take (length s - length r) s))) (rx_run a (s, g))"

definition no_caps :: caps where
  "no_caps = (\<lambda>n. None)"

text \<open>A literal, case-sensitive or (flag \<open>i\<close>) case-insensitive.\<close>

definition lit :: "string \<Rightarrow> rx" where
  "lit s = foldr (\<lambda>c r. Seq (Cls (\<lambda>x. x = c)) r) s Eps"

definition lit_i :: "string \<Rightarrow> rx" where
  "lit_i s = foldr (\<lambda>c r. Seq (Cls (\<lambda>x. lower_char x = lower_char c)) r) s Eps"

definition seqs :: "rx list \<Rightarrow> rx" where
  "seqs rs = foldr Seq rs Eps"

definition re_dot :: "char \<Rightarrow> bool" where
  "re_dot c = ((of_char c :: nat) \<notin> {10, 13})"

definition re_word :: "char \<Rightarrow> bool" where
  "re_word c =
     (let n = (of_char c :: nat)
      in (48 \<le> n \<and> n \<le> 57) \<or> (65 \<le> n \<and> n \<le> 90) \<or> (97 \<le> n \<and> n \<le> 122) \<or> n = 95)"

text \<open>\<open>rx_at r s\<close>: the match of \<open>r\<close> anchored at the start of \<open>s\<close>, as (matched text,
  groups, text left).\<close>

definition rx_at :: "rx \<Rightarrow> string \<Rightarrow> (string \<times> caps \<times> string) option" where
  "rx_at r s =
     (case rx_run r (s, no_caps) of
        [] \<Rightarrow> None
      | (rest, g) # _ \<Rightarrow> Some (take (length s - length rest) s, g, rest))"

text \<open>\<open>s.match(r)\<close> without the flag \<open>g\<close>: the match at the leftmost position that has one.\<close>

fun rx_exec :: "rx \<Rightarrow> string \<Rightarrow> (string \<times> caps \<times> string) option" where
  "rx_exec r [] = rx_at r []"
| "rx_exec r (c # cs) =
     (case rx_at r (c # cs) of Some m \<Rightarrow> Some m | None \<Rightarrow> rx_exec r cs)"

definition rx_group :: "rx \<Rightarrow> nat \<Rightarrow> string \<Rightarrow> string option" where
  "rx_group r n s = (case rx_exec r s of None \<Rightarrow> None | Some (m, g, rest) \<Rightarrow> g n)"

definition rx_test :: "rx \<Rightarrow> string \<Rightarrow> bool" where
  "rx_test r s = (rx_exec r s \<noteq> None)"

text \<open>
  \<open>s.match(r)\<close> with the flag \<open>g\<close> and \<open>s.split(r)\<close>, for patterns that match no empty
  text (all of the source's do): the scan resumes after each match. The counter is the
  number of characters of the last match still to skip.
\<close>

fun rx_all :: "rx \<Rightarrow> nat \<Rightarrow> string \<Rightarrow> string list" where
  "rx_all r k [] = []"
| "rx_all r (Suc k) (c # cs) = rx_all r k cs"
| "rx_all r 0 (c # cs) =
     (case rx_at r (c # cs) of
        None \<Rightarrow> rx_all r 0 cs
      | Some (m, g, rest) \<Rightarrow> m # rx_all r (length m - 1) cs)"

fun rx_split :: "rx \<Rightarrow> nat \<Rightarrow> string \<Rightarrow> string \<Rightarrow> string list" where
  "rx_split r k acc [] = [rev acc]"
| "rx_split r (Suc k) acc (c # cs) = rx_split r k acc cs"
| "rx_split r 0 acc (c # cs) =
     (case rx_at r (c # cs) of
        None \<Rightarrow> rx_split r 0 (c # acc) cs
      | Some (m, g, rest) \<Rightarrow> rev acc # rx_split r (length m - 1) [] cs)"

section \<open>Data model\<close>

text \<open>
  \<open>MCPAction\<close>, \<open>MCPContext\<close> and \<open>PromptData\<close> are the source's interfaces; an optional
  field is an \<open>option\<close>. The executor always holds credentials (the constructor and
  \<open>loadApplicationConfig\<close> both set them). \<open>env\<close> is what the compiler reads beside the
  prompt: the context of the executor and the files of its \<open>test-data\<close> directory
  (\<open>None\<close>: the file does not exist or cannot be read).
\<close>

datatype action_type = Navigate | Fill | Click | Wait | Assert | Select | Hover | Snapshot

record MCPAction =
  a_type :: action_type
  a_selector :: "string option"
  a_element :: "string option"
  a_value :: "string option"
  a_url :: "string option"
  a_condition :: "string option"
  a_timeout :: "nat option"
  a_description :: string

record Credentials =
  cred_username :: string
  cred_password :: string

record MCPContext =
  applicationUrl :: string
  userCredentials :: Credentials

record PromptData =
  p_file :: string
  p_title :: string
  p_content :: string
  p_tags :: "string list"

record env =
  mcpContext :: MCPContext
  testData :: "string \<Rightarrow> string option"

definition act :: "action_type \<Rightarrow> string \<Rightarrow> MCPAction" where
  "act t d =
     \<lparr>a_type = t, a_selector = None, a_element = None, a_value = None, a_url = None,
      a_condition = None, a_timeout = None, a_description = d\<rparr>"

definition mk_navigate :: "string \<Rightarrow> string \<Rightarrow> MCPAction" where
  "mk_navigate u d = (act Navigate d)\<lparr>a_url := Some u\<rparr>"

definition mk_fill :: "string \<Rightarrow> string \<Rightarrow> string \<Rightarrow> MCPAction" where
  "mk_fill e v d = (act Fill d)\<lparr>a_element := Some e, a_value := Some v\<rparr>"

definition mk_click :: "string \<Rightarrow> string \<Rightarrow> MCPAction" where
  "mk_click e d = (act Click d)\<lparr>a_element := Some e\<rparr>"

definition mk_wait :: "nat \<Rightarrow> string \<Rightarrow> MCPAction" where
  "mk_wait t d = (act Wait d)\<lparr>a_timeout := Some t\<rparr>"

definition mk_assert :: "string \<Rightarrow> string \<Rightarrow> string \<Rightarrow> MCPAction" where
  "mk_assert e c d = (act Assert d)\<lparr>a_element := Some e, a_condition := Some c\<rparr>"

datatype intent =
    unknown | navigate | login | fill_form | click_element | verify_element
  | wait_action | complex_workflow | data_driven_test

record IntentContext =
  primaryAction :: intent
  ctx_elements :: "string list"
  ctx_values :: "string list"
  ctx_conditions :: "string list"
  ctx_modifiers :: "string list"

record Dataset =
  ds_username :: string
  ds_password :: string
  ds_expected :: string

definition dq :: char where
  "dq = CHR 0x22"

definition stepLabel :: "nat \<Rightarrow> string" where
  "stepLabel n = ''Step '' @ showNat n @ '': ''"

definition rowLabel :: "nat \<Rightarrow> nat \<Rightarrow> string" where
  "rowLabel n i = ''Step '' @ showNat n @ ''.'' @ showNat (i + 1) @ '': ''"

section \<open>Entity extraction\<close>

definition url_rx :: rx where
  "url_rx =
     seqs [lit ''http'', Opt (lit ''s''), lit ''://'',
           Plus (\<lambda>c. \<not> is_space c \<and> c \<noteq> CHR 0x60 \<and> c \<noteq> CHR 0x27 \<and> c \<noteq> dq)]"

definition extractURL :: "string \<Rightarrow> string option" where
  "extractURL step = (case rx_exec url_rx step of None \<Rightarrow> None | Some (m, g, r) \<Rightarrow> Some m)"

definition labelled_rx :: "string \<Rightarrow> rx" where
  "labelled_rx label =
     seqs [lit_i label, Plus (\<lambda>c. c = CHR '':'' \<or> is_space c), Opt (Cls (\<lambda>c. c = dq)),
           Grp 1 (Plus (\<lambda>c. c \<noteq> dq \<and> \<not> is_space c)), Opt (Cls (\<lambda>c. c = dq))]"

definition extractCredentials :: "string \<Rightarrow> string option \<times> string option" where
  "extractCredentials step =
     (rx_group (labelled_rx ''username'') 1 step, rx_group (labelled_rx ''password'') 1 step)"

definition quoted_field_rx :: "string \<Rightarrow> rx" where
  "quoted_field_rx label =
     seqs [lit_i label, Plus (\<lambda>c. c = CHR '':'' \<or> is_space c), Cls (\<lambda>c. c = dq),
           Grp 1 (Plus (\<lambda>c. c \<noteq> dq)), Cls (\<lambda>c. c = dq)]"

text \<open>\<open>extractFormFields\<close>: (element, value, label) for each field found, in a fixed order.\<close>

definition extractFormFields :: "string \<Rightarrow> (string \<times> string \<times> string) list" where
  "extractFormFields step =
     (case rx_group (quoted_field_rx ''first name'') 1 step of
        None \<Rightarrow> [] | Some v \<Rightarrow> [(''first name input field'', v, ''first name'')]) @
     (case rx_group (quoted_field_rx ''last name'') 1 step of
        None \<Rightarrow> [] | Some v \<Rightarrow> [(''last name input field'', v, ''last name'')]) @
     (case rx_group (quoted_field_rx ''email'') 1 step of
        None \<Rightarrow> [] | Some v \<Rightarrow> [(''email input field'', v, ''email'')])"

definition extractClickableElement :: "string \<Rightarrow> string" where
  "extractClickableElement step =
     (let lowerStep = toLowerCase step in
      if includes_str lowerStep ''pim'' \<and>
         (includes_str lowerStep ''click'' \<or> includes_str lowerStep ''module'')
      then ''PIM navigation link''
      else if includes_str lowerStep ''add'' \<and> \<not> includes_str lowerStep ''employee''
      then ''Add Employee button''
      else if includes_str lowerStep ''save'' then ''save employee button''
      else if includes_str lowerStep ''login'' then ''login button''
      else if includes_str lowerStep ''user'' \<and> includes_str lowerStep ''icon''
      then ''user dropdown menu icon''
      else if includes_str lowerStep ''logout'' then ''logout button''
      else ''clickable element'')"

text \<open>\<open>extractVerificationDetails\<close>: (element, condition, description).\<close>

definition extractVerificationDetails :: "string \<Rightarrow> string \<times> string \<times> string" where
  "extractVerificationDetails step =
     (if includes_str step ''dashboard''
      then (''dashboard page'', ''visible'', ''dashboard is displayed'')
      else if includes_str step ''employee'' \<and> includes_str step ''profile''
      then (''employee profile page'', ''visible'', ''employee profile page is displayed'')
      else (''page content'', ''visible'', ''page content is visible''))"

definition triggersNavigation :: "string \<Rightarrow> bool" where
  "triggersNavigation step =
     (includes_str step ''pim'' \<or> includes_str step ''add'' \<or> includes_str step ''save'')"

definition timeout_rx :: rx where
  "timeout_rx =
     seqs [Grp 1 (Plus is_digit), Star is_space,
           Alt (lit_i ''ms'') (Alt (lit_i ''milliseconds'') (Alt (lit_i ''s'') (lit_i ''seconds'')))]"

text \<open>The number is a natural number here; JavaScript's is a double, the same below \<open>2^53\<close>.\<close>

definition extractTimeout :: "string \<Rightarrow> nat" where
  "extractTimeout step =
     (case rx_group timeout_rx 1 step of
        Some ds \<Rightarrow>
          (let v = parseInt ds
           in if includes_str step ''s'' \<and> \<not> includes_str step ''ms'' then v * 1000 else v)
      | None \<Rightarrow> 2000)"

definition isComplexWorkflow :: "string \<Rightarrow> bool" where
  "isComplexWorkflow step =
     (includes_str step '' and '' \<or> includes_str step '' then '' \<or>
      length (split_on CHR '' '' step) > 10)"

definition workflow_separator :: rx where
  "workflow_separator = Alt (lit '' and '') (lit '' then '')"

definition decomposeComplexStep :: "string \<Rightarrow> string list" where
  "decomposeComplexStep step = map trim (rx_split workflow_separator 0 [] step)"

definition semanticAnalysis :: "string \<Rightarrow> MCPAction" where
  "semanticAnalysis step = mk_click ''interactive element'' step"

definition extractURLs :: "string \<Rightarrow> string list" where
  "extractURLs text = rx_all url_rx 0 text"

definition extractFieldNames :: "string \<Rightarrow> string list" where
  "extractFieldNames text =
     filter (includes_str text) [''first name'', ''last name'', ''email'', ''username'', ''password'']"

definition extractFieldValues :: "string \<Rightarrow> string list" where
  "extractFieldValues text =
     map (\<lambda>m. butlast (tl m))
       (rx_all (seqs [Cls (\<lambda>c. c = dq), Grp 1 (Plus (\<lambda>c. c \<noteq> dq)), Cls (\<lambda>c. c = dq)]) 0 text)"

definition extractClickableElements :: "string \<Rightarrow> string list" where
  "extractClickableElements text =
     filter (includes_str text) [''button'', ''link'', ''menu'', ''icon'', ''dropdown'']"

definition extractVerificationTargets :: "string \<Rightarrow> string list" where
  "extractVerificationTargets text =
     filter (includes_str text) [''page'', ''element'', ''button'', ''field'', ''text'', ''title'']"

definition extractVerificationConditions :: "string \<Rightarrow> string list" where
  "extractVerificationConditions text =
     filter (includes_str text) [''visible'', ''hidden'', ''enabled'', ''disabled'', ''contains'']"

definition extractWaitConditions :: "string \<Rightarrow> string list" where
  "extractWaitConditions text =
     filter (includes_str text) [''load'', ''appear'', ''disappear'', ''complete'']"

section \<open>Data-driven markers and datasets\<close>

definition hasInlineDatasets :: "string \<Rightarrow> bool" where
  "hasInlineDatasets text =
     ((includes_str text ''username:'' \<and> includes_str text ''password:'' \<and>
       includes_str text ''expected:'') \<or>
      (includes_str text ''- username:'' \<or> includes_str text ''Username:'') \<or>
      includes_str text ''following dataset:'' \<or> includes_str text ''test data:'')"

definition isDataDrivenTest :: "string \<Rightarrow> bool" where
  "isDataDrivenTest text =
     (includes_str text ''csv'' \<or> includes_str text ''data-driven'' \<or>
      includes_str text ''external dataset'' \<or> includes_str text ''logindata.csv'' \<or>
      includes_str text ''test data from'' \<or> hasInlineDatasets text)"

definition csv_rx :: rx where
  "csv_rx = Grp 1 (seqs [Plus re_word, lit_i ''.csv''])"

definition extractDataSources :: "string \<Rightarrow> string list" where
  "extractDataSources text =
     (case rx_all csv_rx 0 text of [] \<Rightarrow> [''loginData.csv''] | m # ms \<Rightarrow> m # ms)"

definition extractDataDrivenModifiers :: "string \<Rightarrow> string list" where
  "extractDataDrivenModifiers text =
     (if includes_str text ''iteration'' then [''iterate''] else []) @
     (if includes_str text ''multiple'' then [''multiple''] else []) @
     (if includes_str text ''each row'' then [''per_row''] else [])"

definition extractCSVFileName :: "string \<Rightarrow> string" where
  "extractCSVFileName step =
     (case rx_group csv_rx 1 step of Some f \<Rightarrow> f | None \<Rightarrow> ''loginData.csv'')"

text \<open>
  \<open>extractInlineDatasets\<close>. First every line is tried against the one-line pattern;
  \<open>inlineRow\<close> is the row of a matching line. Only if no line matched, the lines are
  scanned again with an accumulator (\<open>currentDataset\<close>, whose three fields start
  undefined) and the flag \<open>inDatasetSection\<close>; \<open>scanLine\<close> is one turn of that loop.
\<close>

definition grp :: "caps \<Rightarrow> nat \<Rightarrow> string" where
  "grp g n = or_empty (g n)"

definition inlinePattern :: rx where
  "inlinePattern =
     seqs [Star re_dot, lit_i ''username:'', Star is_space, Grp 1 (Plus (\<lambda>c. c \<noteq> CHR '','')),
           lit_i '','', Star re_dot, lit_i ''password:'', Star is_space,
           Grp 2 (Plus (\<lambda>c. c \<noteq> CHR '','')), lit_i '','', Star re_dot, lit_i ''expected:'',
           Star is_space, Grp 3 (Plus re_dot)]"

definition inlineRow :: "string \<Rightarrow> Dataset option" where
  "inlineRow line =
     (case rx_exec inlinePattern line of
        None \<Rightarrow> None
      | Some (m, g, r) \<Rightarrow>
          Some \<lparr>ds_username = trim (grp g 1), ds_password = trim (grp g 2),
                ds_expected = trim (grp g 3)\<rparr>)"

definition field_rx :: "string \<Rightarrow> rx" where
  "field_rx label =
     seqs [lit_i label, Plus (\<lambda>c. c = CHR '':'' \<or> is_space c),
           Grp 1 (Plus (\<lambda>c. c \<noteq> CHR '','' \<and> \<not> is_space c))]"

definition expected_rx :: rx where
  "expected_rx =
     seqs [lit_i ''expected'', Plus (\<lambda>c. c = CHR '':'' \<or> is_space c), Grp 1 (Plus re_dot)]"

record scan =
  inDatasetSection :: bool
  cur_username :: "string option"
  cur_password :: "string option"
  cur_expected :: "string option"
  datasets :: "Dataset list"

definition scan0 :: scan where
  "scan0 =
     \<lparr>inDatasetSection = False, cur_username = None, cur_password = None,
      cur_expected = None, datasets = []\<rparr>"

definition complete :: "scan \<Rightarrow> bool" where
  "complete st = (truthy (cur_username st) \<and> truthy (cur_password st) \<and> truthy (cur_expected st))"

definition emit :: "scan \<Rightarrow> scan" where
  "emit st =
     st\<lparr>datasets :=
          datasets st @
          [\<lparr>ds_username = tmpl (cur_username st), ds_password = tmpl (cur_password st),
            ds_expected = tmpl (cur_expected st)\<rparr>],
        cur_username := None, cur_password := None, cur_expected := None\<rparr>"

definition labelled :: "string \<Rightarrow> string \<Rightarrow> bool" where
  "labelled trimmedLine label = (includes_str trimmedLine label \<and> includes_str trimmedLine '':'')"

definition scanLine :: "scan \<Rightarrow> string \<Rightarrow> scan" where
  "scanLine st line =
     (let trimmedLine = toLowerCase (trim line) in
      if includes_str trimmedLine ''dataset'' \<or> includes_str trimmedLine ''test data''
      then st\<lparr>inDatasetSection := True\<rparr>
      else if \<not> inDatasetSection st then st
      else
        (let st1 =
               (if labelled trimmedLine ''username''
                then (case rx_group (field_rx ''username'') 1 line of
                        None \<Rightarrow> st | Some u \<Rightarrow> st\<lparr>cur_username := Some (trim u)\<rparr>)
                else st);
             st2 =
               (if labelled trimmedLine ''password''
                then (case rx_group (field_rx ''password'') 1 line of
                        None \<Rightarrow> st1 | Some pw \<Rightarrow> st1\<lparr>cur_password := Some (trim pw)\<rparr>)
                else st1)
         in if labelled trimmedLine ''expected''
            then (case rx_group expected_rx 1 line of
                    None \<Rightarrow> st2
                  | Some x \<Rightarrow>
                      (let st3 = st2\<lparr>cur_expected := Some (trim x)\<rparr>
                       in if complete st3 then emit st3 else st3))
            else st2))"

definition blockScan :: "string list \<Rightarrow> Dataset list" where
  "blockScan lines = datasets (foldl scanLine scan0 lines)"

definition extractInlineDatasets :: "string \<Rightarrow> Dataset list" where
  "extractInlineDatasets text =
     (let lines = lines_of text; found = List.map_filter inlineRow lines
      in if length found = 0 then blockScan lines else found)"

text \<open>
  \<open>readCSVData\<close>. A row is the object built from the header line: a map from column
  name to value, a later column of the same name replacing an earlier one.
\<close>

type_synonym csv_row = "string \<Rightarrow> string option"

definition csvRow :: "string list \<Rightarrow> string list \<Rightarrow> csv_row" where
  "csvRow headers vals =
     fold (\<lambda>(i, h) row. row(h \<mapsto> (if i < length vals then vals ! i else [])))
       (enumerate 0 headers) (\<lambda>k. None)"

definition readCSVData :: "env \<Rightarrow> string \<Rightarrow> csv_row list" where
  "readCSVData e fileName =
     (case testData e fileName of
        None \<Rightarrow> []
      | Some csvContent \<Rightarrow>
          (case lines_of (trim csvContent) of
             header # l # ls \<Rightarrow>
               (let headers = map trim (split_on CHR '','' header)
                in map (\<lambda>line. csvRow headers (map trim (split_on CHR '','' line))) (l # ls))
           | _ \<Rightarrow> []))"

section \<open>Intent classification\<close>

definition matchesIntent :: "string \<Rightarrow> string list \<Rightarrow> bool" where
  "matchesIntent text keywords = list_ex (includes_str text) keywords"

definition context0 :: IntentContext where
  "context0 =
     \<lparr>primaryAction = unknown, ctx_elements = [], ctx_values = [], ctx_conditions = [],
      ctx_modifiers = []\<rparr>"

definition analyzeStepContext :: "string \<Rightarrow> IntentContext" where
  "analyzeStepContext stepText =
     (if matchesIntent stepText [''navigate'', ''open'', ''go to'', ''visit'']
      then context0\<lparr>primaryAction := navigate, ctx_elements := extractURLs stepText\<rparr>
      else if matchesIntent stepText
                [''login'', ''sign in'', ''authenticate'', ''enter credentials'']
      then context0
             \<lparr>primaryAction := login,
              ctx_values :=
                filter (\<lambda>v. v \<noteq> [])
                  [or_empty (fst (extractCredentials stepText)),
                   or_empty (snd (extractCredentials stepText))]\<rparr>
      else if matchesIntent stepText [''enter'', ''input'', ''type'', ''fill'', ''provide'']
      then context0
             \<lparr>primaryAction := fill_form, ctx_elements := extractFieldNames stepText,
              ctx_values := extractFieldValues stepText\<rparr>
      else if matchesIntent stepText [''click'', ''press'', ''select'', ''choose'', ''tap'']
      then context0
             \<lparr>primaryAction := click_element,
              ctx_elements := extractClickableElements stepText\<rparr>
      else if matchesIntent stepText [''verify'', ''check'', ''confirm'', ''validate'', ''assert'']
      then context0
             \<lparr>primaryAction := verify_element,
              ctx_elements := extractVerificationTargets stepText,
              ctx_conditions := extractVerificationConditions stepText\<rparr>
      else if matchesIntent stepText [''wait'', ''pause'', ''delay'']
      then context0
             \<lparr>primaryAction := wait_action, ctx_modifiers := extractWaitConditions stepText\<rparr>
      else if isComplexWorkflow stepText
      then context0\<lparr>primaryAction := complex_workflow\<rparr>
      else if isDataDrivenTest stepText
      then context0
             \<lparr>primaryAction := data_driven_test,
              ctx_elements := extractDataSources stepText,
              ctx_modifiers := extractDataDrivenModifiers stepText\<rparr>
      else context0)"

section \<open>Action generation\<close>

text \<open>The generators do not read their \<open>context\<close> argument; it is left out.\<close>

definition generateNavigationActions :: "env \<Rightarrow> string \<Rightarrow> nat \<Rightarrow> MCPAction list" where
  "generateNavigationActions e step stepNumber =
     (let url = (case extractURL step of Some u \<Rightarrow> u | None \<Rightarrow> applicationUrl (mcpContext e))
      in [mk_navigate url (stepLabel stepNumber @ ''Navigate to '' @ url)])"

definition generateLoginActions :: "env \<Rightarrow> string \<Rightarrow> nat \<Rightarrow> MCPAction list" where
  "generateLoginActions e step stepNumber =
     (let credentials = extractCredentials step;
          defaultCreds = userCredentials (mcpContext e)
      in [mk_fill ''username input field''
            (or_empty (js_or (fst credentials) (Some (cred_username defaultCreds))))
            (stepLabel stepNumber @ ''Enter username''),
          mk_fill ''password input field''
            (or_empty (js_or (snd credentials) (Some (cred_password defaultCreds))))
            (stepLabel stepNumber @ ''Enter password''),
          mk_click ''login button'' (stepLabel stepNumber @ ''Click login button''),
          mk_wait 3000 (stepLabel stepNumber @ ''Wait for login to complete'')])"

definition generateFormActions :: "string \<Rightarrow> nat \<Rightarrow> MCPAction list" where
  "generateFormActions step stepNumber =
     map (\<lambda>(element, v, label). mk_fill element v (stepLabel stepNumber @ ''Enter '' @ label))
       (extractFormFields step)"

definition generateClickActions :: "string \<Rightarrow> nat \<Rightarrow> MCPAction list" where
  "generateClickActions step stepNumber =
     (let element = extractClickableElement step
      in [mk_click element (stepLabel stepNumber @ ''Click '' @ element)] @
         (if triggersNavigation step
          then [mk_wait 2000 (stepLabel stepNumber @ ''Wait for page transition'')]
          else []))"

definition generateVerificationActions :: "string \<Rightarrow> nat \<Rightarrow> MCPAction list" where
  "generateVerificationActions step stepNumber =
     (case extractVerificationDetails step of
        (element, cond, d) \<Rightarrow> [mk_assert element cond (stepLabel stepNumber @ ''Verify '' @ d)])"

definition generateWaitActions :: "string \<Rightarrow> nat \<Rightarrow> MCPAction list" where
  "generateWaitActions step stepNumber =
     (let t = extractTimeout step
      in [mk_wait t (stepLabel stepNumber @ ''Wait '' @ showNat t @ ''ms'')])"

definition generateSemanticActions :: "string \<Rightarrow> nat \<Rightarrow> MCPAction list" where
  "generateSemanticActions step stepNumber =
     (let semanticAction = semanticAnalysis step
      in [\<lparr>a_type = a_type semanticAction, a_selector = None,
           a_element = a_element semanticAction, a_value = a_value semanticAction,
           a_url = None, a_condition = a_condition semanticAction, a_timeout = None,
           a_description = stepLabel stepNumber @ a_description semanticAction\<rparr>])"

text \<open>
  The body of the \<open>forEach\<close> of \<open>generateInlineDataActions\<close> for the row \<open>dataset\<close> at
  \<open>index\<close> out of \<open>len\<close> rows (\<open>len\<close> is at least 1 inside the loop). Nothing in the
  \<open>try\<close> block can throw, so the \<open>catch\<close> branch is not modelled.
\<close>

definition inlineRowActions ::
  "env \<Rightarrow> string \<Rightarrow> nat \<Rightarrow> nat \<Rightarrow> nat \<Rightarrow> Dataset \<Rightarrow> MCPAction list" where
  "inlineRowActions e step stepNumber len index dataset =
     (let lbl = rowLabel stepNumber index in
      [mk_navigate (applicationUrl (mcpContext e))
         (lbl @ ''Navigate to login page for test case '' @ showNat (index + 1)),
       mk_fill ''username input field'' (ds_username dataset)
         (lbl @ ''Enter username '' @ [dq] @ ds_username dataset @ [dq]),
       mk_fill ''password input field'' (ds_password dataset)
         (lbl @ ''Enter password '' @ [dq] @ ds_password dataset @ [dq]),
       mk_click ''login button'' (lbl @ ''Click login button''),
       mk_wait 3000 (lbl @ ''Wait for login response'')] @
      (if includes_str (toLowerCase (ds_expected dataset)) ''dashboard''
       then [mk_assert ''dashboard page'' ''visible''
               (lbl @ ''Verify dashboard is displayed for valid credentials'')]
       else if includes_str (toLowerCase (ds_expected dataset)) ''invalid'' \<or>
               includes_str (toLowerCase (ds_expected dataset)) ''error''
       then [mk_assert ''error message'' ''contains:Invalid credentials''
               (lbl @ ''Verify error message for invalid credentials'')]
       else []) @
      (if includes_str (toLowerCase (ds_expected dataset)) ''dashboard'' \<and>
          includes_str (toLowerCase step) ''logout''
       then [mk_click ''user dropdown menu'' (lbl @ ''Click user dropdown menu''),
             mk_click ''logout button'' (lbl @ ''Click logout button''),
             mk_wait 2000 (lbl @ ''Wait for logout to complete'')]
       else []) @
      (if index < len - 1 then [mk_wait 1000 (lbl @ ''Wait before next test case'')] else []))"

definition generateInlineDataActions :: "env \<Rightarrow> string \<Rightarrow> nat \<Rightarrow> MCPAction list" where
  "generateInlineDataActions e step stepNumber =
     (let inlineData = extractInlineDatasets step
      in concat (map (\<lambda>(index, dataset).
                        inlineRowActions e step stepNumber (length inlineData) index dataset)
                   (enumerate 0 inlineData)))"

text \<open>
  The same for \<open>generateCSVDataActions\<close>. \<open>readCSVData\<close> returns the empty list instead
  of throwing, and nothing else in the \<open>try\<close> block can throw.
\<close>

definition csvRowActions :: "env \<Rightarrow> nat \<Rightarrow> nat \<Rightarrow> nat \<Rightarrow> csv_row \<Rightarrow> MCPAction list" where
  "csvRowActions e stepNumber len index row =
     (let lbl = rowLabel stepNumber index;
          user = js_or (row ''Username'') (row ''username'');
          pw = js_or (row ''Password'') (row ''password'');
          expectedResult = or_empty (js_or (row ''Expected'') (row ''expected''))
      in
      [mk_navigate (applicationUrl (mcpContext e))
         (lbl @ ''Navigate to login page for test case '' @ showNat (index + 1)),
       mk_fill ''username input field'' (or_empty user)
         (lbl @ ''Enter username '' @ [dq] @ tmpl user @ [dq]),
       mk_fill ''password input field'' (or_empty pw)
         (lbl @ ''Enter password '' @ [dq] @ tmpl pw @ [dq]),
       mk_click ''login button'' (lbl @ ''Click login button''),
       mk_wait 3000 (lbl @ ''Wait for login response'')] @
      (if includes_str (toLowerCase expectedResult) ''dashboard''
       then [mk_assert ''dashboard page'' ''visible''
               (lbl @ ''Verify dashboard is displayed for valid credentials'')]
       else if includes_str (toLowerCase expectedResult) ''invalid''
       then [mk_assert ''error message'' ''contains:Invalid credentials''
               (lbl @ ''Verify error message for invalid credentials'')]
       else []) @
      (if index < len - 1 then [mk_wait 1000 (lbl @ ''Wait before next test case'')] else []))"

definition generateCSVDataActions :: "env \<Rightarrow> string \<Rightarrow> nat \<Rightarrow> MCPAction list" where
  "generateCSVDataActions e step stepNumber =
     (let csvFile = extractCSVFileName step; csvData = readCSVData e csvFile
      in concat (map (\<lambda>(index, row). csvRowActions e stepNumber (length csvData) index row)
                   (enumerate 0 csvData)))"

definition generateDataDrivenActions :: "env \<Rightarrow> string \<Rightarrow> nat \<Rightarrow> MCPAction list" where
  "generateDataDrivenActions e step stepNumber =
     (if hasInlineDatasets step then generateInlineDataActions e step stepNumber
      else generateCSVDataActions e step stepNumber)"

section \<open>Step parsing\<close>

definition fallbackBasicParser :: "env \<Rightarrow> string \<Rightarrow> nat \<Rightarrow> MCPAction list" where
  "fallbackBasicParser e step stepNumber =
     (let lowerStep = toLowerCase step in
      if includes_str lowerStep ''navigate''
      then [mk_navigate (applicationUrl (mcpContext e))
              (stepLabel stepNumber @ ''Navigate to application'')]
      else if includes_str lowerStep ''login''
      then [mk_click ''login button'' (stepLabel stepNumber @ ''Login action'')]
      else [mk_wait 1000 (stepLabel stepNumber @ ''Default wait action'')])"

text \<open>
  \<open>intelligentStepParser\<close> and \<open>generateWorkflowActions\<close> call each other, with no bound
  in the source. The first argument counts the nested calls of \<open>intelligentStepParser\<close>
  still allowed; \<open>None\<close> says that the recursion has not returned within that depth.
\<close>

fun intelligentStepParser :: "nat \<Rightarrow> env \<Rightarrow> string \<Rightarrow> nat \<Rightarrow> MCPAction list option"
  and generateWorkflowActions :: "nat \<Rightarrow> env \<Rightarrow> string \<Rightarrow> nat \<Rightarrow> MCPAction list option"
where
  "intelligentStepParser 0 e step stepNumber = None"
| "intelligentStepParser (Suc d) e step stepNumber =
     (let stepText = trim (toLowerCase step); stepContext = analyzeStepContext stepText
      in case primaryAction stepContext of
           navigate \<Rightarrow> Some (generateNavigationActions e step stepNumber)
         | login \<Rightarrow> Some (generateLoginActions e step stepNumber)
         | fill_form \<Rightarrow> Some (generateFormActions step stepNumber)
         | click_element \<Rightarrow> Some (generateClickActions step stepNumber)
         | verify_element \<Rightarrow> Some (generateVerificationActions step stepNumber)
         | wait_action \<Rightarrow> Some (generateWaitActions step stepNumber)
         | complex_workflow \<Rightarrow> generateWorkflowActions d e step stepNumber
         | data_driven_test \<Rightarrow> Some (generateDataDrivenActions e step stepNumber)
         | unknown \<Rightarrow> Some (generateSemanticActions step stepNumber))"
| "generateWorkflowActions d e step stepNumber =
     map_option concat
       (those (map (\<lambda>subAction. intelligentStepParser d e subAction stepNumber)
                 (decomposeComplexStep step)))"

text \<open>
  \<open>parseSimpleStep\<close> falls back to \<open>fallbackBasicParser\<close> when the parser yields no
  action, and in its \<open>catch\<close> branch. The only error the parser can raise is the
  engine's, when the nesting exhausts the call stack: \<open>depth\<close> is the nesting the
  stack allows.
\<close>

definition parseSimpleStep :: "nat \<Rightarrow> env \<Rightarrow> string \<Rightarrow> nat \<Rightarrow> MCPAction list" where
  "parseSimpleStep depth e step stepNumber =
     (case intelligentStepParser depth e step stepNumber of
        Some parsedActions \<Rightarrow>
          if length parsedActions > 0 then parsedActions
          else fallbackBasicParser e step stepNumber
      | None \<Rightarrow> fallbackBasicParser e step stepNumber)"

definition isStepByStepPrompt :: "string \<Rightarrow> bool" where
  "isStepByStepPrompt content =
     (rx_at (seqs [Star is_space, Plus is_digit, Cls (\<lambda>c. c = CHR ''.''), Cls is_space]) content
        \<noteq> None \<or>
      includes_str content ''1.'' \<or> includes_str content ''2.'')"

definition isNumberedStep :: "string \<Rightarrow> bool" where
  "isNumberedStep trimmedLine =
     (rx_at (seqs [Plus is_digit, Cls (\<lambda>c. c = CHR ''.''), Cls is_space]) trimmedLine \<noteq> None)"

definition stripStepNumber :: "string \<Rightarrow> string" where
  "stripStepNumber step =
     (case rx_at (seqs [Plus is_digit, Cls (\<lambda>c. c = CHR ''.''), Star is_space]) step of
        None \<Rightarrow> step
      | Some (m, g, rest) \<Rightarrow> rest)"

definition parseStepByStepPrompt :: "nat \<Rightarrow> env \<Rightarrow> string \<Rightarrow> MCPAction list" where
  "parseStepByStepPrompt depth e content =
     (let stepLines = filter isNumberedStep (map trim (lines_of content))
      in concat (map (\<lambda>(i, line). parseSimpleStep depth e (stripStepNumber (trim line)) (i + 1))
                   (enumerate 0 stepLines)))"

section \<open>Prompt parsing\<close>

definition extractValue :: "string \<Rightarrow> string \<Rightarrow> string \<Rightarrow> string" where
  "extractValue content field defaultValue =
     (case rx_group
             (seqs [lit_i field, Plus is_space, Opt (Seq (lit_i ''as'') (Plus is_space)),
                    Cls (\<lambda>c. c = dq), Grp 1 (Plus (\<lambda>c. c \<noteq> dq)), Cls (\<lambda>c. c = dq)])
             1 content of
        None \<Rightarrow> defaultValue
      | Some v \<Rightarrow> v)"

definition getActionPatterns :: "env \<Rightarrow> string \<Rightarrow> (string list \<times> MCPAction list) list" where
  "getActionPatterns e content =
     [([''navigate'', ''open'', ''go to''],
       [mk_navigate (applicationUrl (mcpContext e)) ''Navigate to application'']),
      ([''login'', ''username'', ''password'', ''admin'', ''credential''],
       [mk_fill ''username input field'' (cred_username (userCredentials (mcpContext e)))
          ''Enter username'',
        mk_fill ''password input field'' (cred_password (userCredentials (mcpContext e)))
          ''Enter password'',
        mk_click ''login button'' ''Click login button'',
        mk_wait 3000 ''Wait for login to complete'']),
      ([''dashboard'', ''verify'', ''confirm''],
       [mk_assert ''dashboard page'' ''visible'' ''Verify dashboard is displayed'']),
      ([''pim'', ''employee''],
       [mk_click ''PIM navigation link'' ''Navigate to PIM'']),
      ([''add'', ''employee'', ''first name'', ''last name''],
       [mk_click ''Add Employee button'' ''Click Add Employee button'',
        mk_fill ''first name input field'' (extractValue content ''first name'' ''John123'')
          ''Enter first name'',
        mk_fill ''last name input field'' (extractValue content ''last name'' ''Doe456'')
          ''Enter last name'',
        mk_click ''save employee button'' ''Save employee'',
        mk_wait 2000 ''Wait for employee to be saved'',
        mk_assert ''employee name display'' ''contains:John123 Doe456''
          ''Verify employee name on profile'']),
      ([''logout'', ''user icon'', ''sign out''],
       [mk_click ''user dropdown menu'' ''Open user dropdown'',
        mk_click ''logout button'' ''Click logout''])]"

definition matchesPattern :: "string \<Rightarrow> string list \<Rightarrow> bool" where
  "matchesPattern content triggers = list_ex (includes_str content) triggers"

definition parsePromptToActions :: "nat \<Rightarrow> env \<Rightarrow> PromptData \<Rightarrow> MCPAction list" where
  "parsePromptToActions depth e prompt =
     (let content = toLowerCase (p_content prompt) in
      if isDataDrivenTest content then generateDataDrivenActions e (p_content prompt) 1
      else if isStepByStepPrompt content then parseStepByStepPrompt depth e (p_content prompt)
      else
        (let actions =
               concat (map snd (filter (\<lambda>pattern. matchesPattern content (fst pattern))
                                  (getActionPatterns e content)))
         in if length actions = 0
            then [mk_navigate (applicationUrl (mcpContext e))
                    ''Navigate to application (default action)'']
            else actions))"

section \<open>Fixtures and vocabulary of the statements\<close>

text \<open>
  A concrete executor for the closed statements: the OrangeHRM demo context with an empty
  \<open>test-data\<close> directory, and the same with one file \<open>loginData.csv\<close>.
\<close>

definition demo_context :: MCPContext where
  "demo_context =
     \<lparr>applicationUrl = ''https://opensource-demo.orangehrmlive.com'',
      userCredentials = \<lparr>cred_username = ''Admin'', cred_password = ''admin123''\<rparr>\<rparr>"

definition demo_env :: env where
  "demo_env = \<lparr>mcpContext = demo_context, testData = (\<lambda>f. None)\<rparr>"

definition demo_csv :: string where
  "demo_csv = ''Username,Password,Expected'' @ [newline] @ ''bob,wrong,Error shown''"

definition demo_csv_env :: env where
  "demo_csv_env =
     demo_env\<lparr>testData := (\<lambda>f. if f = ''loginData.csv'' then Some demo_csv else None)\<rparr>"

definition prompt_of :: "string \<Rightarrow> PromptData" where
  "prompt_of c = \<lparr>p_file = ''prompt.txt'', p_title = ''prompt'', p_content = c, p_tags = []\<rparr>"

text \<open>The six keyword lists of \<open>analyzeStepContext\<close>, in its order.\<close>

definition keywordIntents :: "string list list" where
  "keywordIntents =
     [[''navigate'', ''open'', ''go to'', ''visit''],
      [''login'', ''sign in'', ''authenticate'', ''enter credentials''],
      [''enter'', ''input'', ''type'', ''fill'', ''provide''],
      [''click'', ''press'', ''select'', ''choose'', ''tap''],
      [''verify'', ''check'', ''confirm'', ''validate'', ''assert''],
      [''wait'', ''pause'', ''delay'']]"

definition noKeyword :: "string \<Rightarrow> bool" where
  "noKeyword stepText = (\<not> list_ex (matchesIntent stepText) keywordIntents)"

text \<open>
  The intent \<open>intelligentStepParser\<close> computes for a step, and whether a text starts
  with one of the two separators of \<open>decomposeComplexStep\<close>.
\<close>

definition stepIntent :: "string \<Rightarrow> intent" where
  "stepIntent step = primaryAction (analyzeStepContext (trim (toLowerCase step)))"

definition sepAt :: "string \<Rightarrow> bool" where
  "sepAt t = (starts_with t '' and '' \<or> starts_with t '' then '')"

text \<open>
  Vocabulary of the block scan: a line that opens the dataset section, a line that
  carries a label, and the value the accumulator holds for a field once the line's
  label for that field has been read.
\<close>

definition markerLine :: "string \<Rightarrow> bool" where
  "markerLine line =
     (includes_str (toLowerCase (trim line)) ''dataset'' \<or>
      includes_str (toLowerCase (trim line)) ''test data'')"

definition labelLine :: "string \<Rightarrow> string \<Rightarrow> bool" where
  "labelLine label line = labelled (toLowerCase (trim line)) label"

definition heldAfter :: "string \<Rightarrow> string option \<Rightarrow> string \<Rightarrow> string option" where
  "heldAfter label cur line =
     (if labelLine label line
      then (case rx_group (field_rx label) 1 line of None \<Rightarrow> cur | Some v \<Rightarrow> Some (trim v))
      else cur)"

text \<open>
  Vocabulary of the inline expansion: a line is a well-formed triple when the one-line
  pattern matches it.
\<close>

definition isFillOf :: "string \<Rightarrow> MCPAction \<Rightarrow> bool" where
  "isFillOf el a = (a_type a = Fill \<and> a_element a = Some el)"

definition isClickOf :: "string \<Rightarrow> MCPAction \<Rightarrow> bool" where
  "isClickOf el a = (a_type a = Click \<and> a_element a = Some el)"

definition wellFormedTriple :: "string \<Rightarrow> bool" where
  "wellFormedTriple line = rx_test inlinePattern line"

definition demo_block :: string where
  "demo_block =
     ''Test data:'' @ [newline] @ ''Username: Admin'' @ [newline] @
     ''Password: admin123'' @ [newline] @ ''Expected: Dashboard''"


definition demo_steps :: string where
  "demo_steps =
     ''Open the demo'' @ [newline] @
     ''1. Navigate to https://opensource-demo.orangehrmlive.com'' @ [newline] @
     ''2. Click the PIM link'' @ [newline] @
     ''3. Look and see'' @ [newline] @
     ''4. a b c d e f g h i j k''"

definition demo_scan :: scan where
  "demo_scan =
     \<lparr>inDatasetSection = True, cur_username = Some ''Admin'', cur_password = Some ''admin123'',
      cur_expected = None, datasets = []\<rparr>"

definition demo_inline :: string where
  "demo_inline =
     ''Username: Admin, Password: admin123, Expected: Dashboard visible'' @ [newline] @
     ''Username: bob, Password: wrong, Expected: Invalid credentials''"

section \<open>Classification\<close>

lemma lower_char_idem: "lower_char (lower_char c) = lower_char c"
  by (simp add: lower_char_def Let_def)

lemma toLowerCase_idem: "toLowerCase (toLowerCase s) = toLowerCase s"
  by (simp add: toLowerCase_def lower_char_idem)


lemma classify_unknown:
  "primaryAction (analyzeStepContext t) = unknown \<longleftrightarrow>
     noKeyword t \<and> \<not> isComplexWorkflow t \<and> \<not> isDataDrivenTest t"
  by (simp add: analyzeStepContext_def context0_def noKeyword_def keywordIntents_def)

lemma classify_complex:
  "primaryAction (analyzeStepContext t) = complex_workflow \<longleftrightarrow>
     noKeyword t \<and> isComplexWorkflow t"
  by (simp add: analyzeStepContext_def context0_def noKeyword_def keywordIntents_def)

section \<open>The block scan\<close>

lemma scanLine_marker: "markerLine l \<Longrightarrow> scanLine st l = st\<lparr>inDatasetSection := True\<rparr>"
  by (simp add: scanLine_def markerLine_def Let_def)

lemma scanLine_outside:
  "\<not> inDatasetSection st \<Longrightarrow> \<not> markerLine l \<Longrightarrow> scanLine st l = st"
  by (simp add: scanLine_def markerLine_def Let_def)

lemma scanLine_inside:
  assumes "inDatasetSection st" "\<not> markerLine l"
  shows "scanLine st l =
     (let st2 = st\<lparr>cur_username := heldAfter ''username'' (cur_username st) l,
                   cur_password := heldAfter ''password'' (cur_password st) l\<rparr>
      in if labelLine ''expected'' l
         then (case rx_group expected_rx 1 l of
                 None \<Rightarrow> st2
               | Some x \<Rightarrow> if complete (st2\<lparr>cur_expected := Some (trim x)\<rparr>)
                           then emit (st2\<lparr>cur_expected := Some (trim x)\<rparr>)
                           else st2\<lparr>cur_expected := Some (trim x)\<rparr>)
         else st2)"
proof -
  have u: "(if labelled (toLowerCase (trim l)) ''username''
            then (case rx_group (field_rx ''username'') 1 l of
                    None \<Rightarrow> st | Some u \<Rightarrow> st\<lparr>cur_username := Some (trim u)\<rparr>)
            else st) = st\<lparr>cur_username := heldAfter ''username'' (cur_username st) l\<rparr>"
    by (simp add: heldAfter_def labelLine_def split: option.splits)
  have p: "(if labelled (toLowerCase (trim l)) ''password''
            then (case rx_group (field_rx ''password'') 1 l of
                    None \<Rightarrow> s | Some pw \<Rightarrow> s\<lparr>cur_password := Some (trim pw)\<rparr>)
            else s) = s\<lparr>cur_password := heldAfter ''password'' (cur_password s) l\<rparr>" for s
    by (simp add: heldAfter_def labelLine_def split: option.splits)
  from assms show ?thesis
    unfolding scanLine_def Let_def u p
    by (simp add: markerLine_def labelLine_def split: option.splits)
qed

lemma scanLine_emits:
  assumes "datasets (scanLine st l) \<noteq> datasets st"
  shows "inDatasetSection st \<and> \<not> markerLine l \<and> labelLine ''expected'' l \<and>
         (\<exists>u p x x0. u \<noteq> [] \<and> p \<noteq> [] \<and> x \<noteq> [] \<and>
            heldAfter ''username'' (cur_username st) l = Some u \<and>
            heldAfter ''password'' (cur_password st) l = Some p \<and>
            rx_group expected_rx 1 l = Some x0 \<and> trim x0 = x \<and>
            datasets (scanLine st l) =
              datasets st @ [\<lparr>ds_username = u, ds_password = p, ds_expected = x\<rparr>] \<and>
            cur_username (scanLine st l) = None \<and> cur_password (scanLine st l) = None \<and>
            cur_expected (scanLine st l) = None)"
proof -
  have nm: "\<not> markerLine l"
  proof
    assume "markerLine l"
    then have "scanLine st l = st\<lparr>inDatasetSection := True\<rparr>" by (rule scanLine_marker)
    with assms show False by simp
  qed
  have ins: "inDatasetSection st"
  proof (rule ccontr)
    assume "\<not> inDatasetSection st"
    then have "scanLine st l = st" using nm by (rule scanLine_outside)
    with assms show False by simp
  qed
  note eq = scanLine_inside [OF ins nm]
  have ex: "labelLine ''expected'' l"
    using assms unfolding eq Let_def by (auto split: if_splits)
  obtain x0 where x0: "rx_group expected_rx 1 l = Some x0"
    using assms ex unfolding eq Let_def by (cases "rx_group expected_rx 1 l") auto
  let ?st3 = "st\<lparr>cur_username := heldAfter ''username'' (cur_username st) l,
                 cur_password := heldAfter ''password'' (cur_password st) l,
                 cur_expected := Some (trim x0)\<rparr>"
  have c: "complete ?st3"
    using assms ex x0 unfolding eq Let_def by (auto split: if_splits)
  have r: "scanLine st l = emit ?st3"
    using ex x0 c unfolding eq Let_def by simp
  from c obtain u p where up: "heldAfter ''username'' (cur_username st) l = Some u" "u \<noteq> []"
      "heldAfter ''password'' (cur_password st) l = Some p" "p \<noteq> []" "trim x0 \<noteq> []"
    by (auto simp add: complete_def truthy_def split: option.splits)
  have "datasets (scanLine st l) =
          datasets st @ [\<lparr>ds_username = u, ds_password = p, ds_expected = trim x0\<rparr>] \<and>
        cur_username (scanLine st l) = None \<and> cur_password (scanLine st l) = None \<and>
        cur_expected (scanLine st l) = None"
    unfolding r by (simp add: emit_def up tmpl_def)
  with nm ins ex x0 up show ?thesis by blast
qed

lemma foldl_scanLine_outside:
  "\<not> inDatasetSection st \<Longrightarrow> \<forall>l \<in> set ls. \<not> markerLine l \<Longrightarrow> foldl scanLine st ls = st"
  by (induction ls arbitrary: st) (simp_all add: scanLine_outside)

lemma blockScan_before_marker:
  "\<forall>l \<in> set pre. \<not> markerLine l \<Longrightarrow> blockScan (pre @ ls) = blockScan ls"
  by (simp add: blockScan_def foldl_scanLine_outside scan0_def)

lemma scanLine_no_expected:
  "\<not> labelLine ''expected'' l \<Longrightarrow> datasets (scanLine st l) = datasets st"
  by (simp add: scanLine_def labelLine_def Let_def split: option.splits)

lemma foldl_scanLine_no_expected:
  "\<forall>l \<in> set ls. \<not> labelLine ''expected'' l \<Longrightarrow> datasets (foldl scanLine st ls) = datasets st"
  by (induction ls arbitrary: st) (simp_all add: scanLine_no_expected)

lemma blockScan_trailing:
  "\<forall>l \<in> set ls'. \<not> labelLine ''expected'' l \<Longrightarrow> blockScan (ls @ ls') = blockScan ls"
  by (simp add: blockScan_def foldl_scanLine_no_expected)

section \<open>The inline expansion\<close>

lemma wellFormedTriple_iff: "wellFormedTriple l \<longleftrightarrow> inlineRow l \<noteq> None"
  by (simp add: wellFormedTriple_def rx_test_def inlineRow_def split: option.splits)

lemma inline_rows: "List.map_filter inlineRow ls = map (the \<circ> inlineRow) (filter wellFormedTriple ls)"
  by (simp add: List.map_filter_def wellFormedTriple_iff [abs_def])

lemma block_fill_username:
  "map a_value (filter (isFillOf ''username input field'') (inlineRowActions e step n len i r)) =
   [Some (ds_username r)]"
  by (simp add: inlineRowActions_def isFillOf_def mk_navigate_def mk_fill_def mk_click_def
        mk_wait_def mk_assert_def act_def Let_def)

lemma block_fill_password:
  "map a_value (filter (isFillOf ''password input field'') (inlineRowActions e step n len i r)) =
   [Some (ds_password r)]"
  by (simp add: inlineRowActions_def isFillOf_def mk_navigate_def mk_fill_def mk_click_def
        mk_wait_def mk_assert_def act_def Let_def)

lemma block_click_login:
  "length (filter (isClickOf ''login button'') (inlineRowActions e step n len i r)) = 1"
  by (simp add: inlineRowActions_def isClickOf_def mk_navigate_def mk_fill_def mk_click_def
        mk_wait_def mk_assert_def act_def Let_def)

section \<open>Depth of the decomposition of compound steps\<close>

lemma parser_leaf:
  "stepIntent step \<noteq> complex_workflow \<Longrightarrow>
   intelligentStepParser (Suc d) e step n = intelligentStepParser (Suc 0) e step n \<and>
   intelligentStepParser (Suc 0) e step n \<noteq> None"
  by (cases "stepIntent step") (simp_all add: stepIntent_def Let_def)

lemma parser_complex:
  "stepIntent step = complex_workflow \<Longrightarrow>
   intelligentStepParser (Suc d) e step n = generateWorkflowActions d e step n"
  by (simp add: stepIntent_def Let_def del: generateWorkflowActions.simps)

lemma parser_loop:
  "stepIntent step = complex_workflow \<Longrightarrow> decomposeComplexStep step = [step] \<Longrightarrow>
   intelligentStepParser d e step n = None"
proof (induction d)
  case 0
  show ?case by simp
next
  case (Suc d)
  from Suc.prems(1) have "intelligentStepParser (Suc d) e step n = generateWorkflowActions d e step n"
    by (rule parser_complex)
  also have "\<dots> = None" using Suc by simp
  finally show ?case .
qed

lemma starts_with_append: "starts_with t w \<Longrightarrow> starts_with (t @ u) w"
  by (induction t w rule: starts_with.induct) simp_all

lemma sepAt_append: "sepAt t \<Longrightarrow> sepAt (t @ u)"
  by (auto simp add: sepAt_def starts_with_append)

lemma sepAt_Nil: "\<not> sepAt []"
  by (simp add: sepAt_def)

lemma lit_Cons: "lit (c # w) = Seq (Cls (\<lambda>x. x = c)) (lit w)"
  by (simp add: lit_def)

lemma rx_run_lit:
  "rx_run (lit w) (s, g) = (if starts_with s w then [(drop (length w) s, g)] else [])"
proof (induction w arbitrary: s)
  case Nil
  show ?case by (simp add: lit_def)
next
  case (Cons c w)
  show ?case
  proof (cases s)
    case Nil
    then show ?thesis by (simp add: lit_Cons)
  next
    case (Cons x xs)
    then show ?thesis by (simp add: lit_Cons Cons.IH)
  qed
qed

lemma rx_at_separator: "rx_at workflow_separator t = None \<longleftrightarrow> \<not> sepAt t"
  by (simp add: rx_at_def workflow_separator_def rx_run_lit sepAt_def no_caps_def)

lemma split_noSep:
  "\<forall>i. \<not> sepAt (drop i s) \<Longrightarrow> rx_split workflow_separator 0 acc s = [rev acc @ s]"
proof (induction s arbitrary: acc)
  case Nil
  show ?case by simp
next
  case (Cons c cs)
  from Cons.prems have "\<not> sepAt (drop 0 (c # cs))" by blast
  then have a: "rx_at workflow_separator (c # cs) = None" by (simp add: rx_at_separator)
  have "\<forall>i. \<not> sepAt (drop i cs)"
  proof
    fix i from Cons.prems have "\<not> sepAt (drop (Suc i) (c # cs))" by blast
    then show "\<not> sepAt (drop i cs)" by simp
  qed
  then have "rx_split workflow_separator 0 (c # acc) cs = [rev (c # acc) @ cs]" by (rule Cons.IH)
  with a show ?case by simp
qed

lemma split_pieces:
  "(0 < k \<longrightarrow> acc = []) \<Longrightarrow> \<forall>i < length acc. \<not> sepAt (drop i (rev acc) @ s) \<Longrightarrow>
   q \<in> set (rx_split workflow_separator k acc s) \<Longrightarrow> \<not> sepAt (drop i q)"
proof (induction s arbitrary: k acc)
  case Nil
  then have q: "q = rev acc" by simp
  show ?case
  proof (cases "i < length acc")
    case True
    with Nil.prems(2) show ?thesis by (simp add: q)
  next
    case False
    then show ?thesis by (simp add: q sepAt_Nil)
  qed
next
  case (Cons c cs)
  show ?case
  proof (cases k)
    case (Suc k')
    with Cons.prems have "acc = []" and "q \<in> set (rx_split workflow_separator k' [] cs)" by simp_all
    then show ?thesis using Cons.IH [of k' "[]"] by simp
  next
    case 0
    show ?thesis
    proof (cases "rx_at workflow_separator (c # cs)")
      case None
      then have ns: "\<not> sepAt (c # cs)" by (simp add: rx_at_separator)
      from None 0 Cons.prems have q: "q \<in> set (rx_split workflow_separator 0 (c # acc) cs)"
        by simp
      have "\<forall>j < length (c # acc). \<not> sepAt (drop j (rev (c # acc)) @ cs)"
      proof (intro allI impI)
        fix j assume j: "j < length (c # acc)"
        show "\<not> sepAt (drop j (rev (c # acc)) @ cs)"
        proof (cases "j < length acc")
          case True
          with Cons.prems(2) have "\<not> sepAt (drop j (rev acc) @ c # cs)" by blast
          with True show ?thesis by simp
        next
          case False
          with j have "j = length acc" by simp
          with ns show ?thesis by simp
        qed
      qed
      with q show ?thesis using Cons.IH [of 0 "c # acc"] by simp
    next
      case (Some m)
      obtain mt g r where m: "m = (mt, g, r)" by (cases m)
      from Some 0 m Cons.prems
      have "q = rev acc \<or> q \<in> set (rx_split workflow_separator (length mt - 1) [] cs)"
        by simp
      then show ?thesis
      proof
        assume q: "q = rev acc"
        show ?thesis
        proof (cases "i < length acc")
          case True
          with Cons.prems(2) have "\<not> sepAt (drop i (rev acc) @ c # cs)" by blast
          then show ?thesis using sepAt_append [of "drop i (rev acc)" "c # cs"] by (auto simp add: q)
        next
          case False
          then show ?thesis by (simp add: q sepAt_Nil)
        qed
      next
        assume "q \<in> set (rx_split workflow_separator (length mt - 1) [] cs)"
        then show ?thesis using Cons.IH [of "length mt - 1" "[]"] by simp
      qed
    qed
  qed
qed

lemma rev_dropWhile_takeWhile:
  "rev (dropWhile P (rev xs)) @ rev (takeWhile P (rev xs)) = xs"
  by (metis rev_append rev_rev_ident takeWhile_dropWhile_id)

lemma trim_infix: "\<exists>a b. q = a @ trim q @ b"
proof -
  let ?x = "dropWhile is_space q"
  have "q = takeWhile is_space q @ ?x" by simp
  also have "?x = trim q @ rev (takeWhile is_space (rev ?x))"
    by (simp only: trim_def rev_dropWhile_takeWhile)
  finally show ?thesis by blast
qed

lemma noSep_infix:
  assumes "\<forall>i. \<not> sepAt (drop i (a @ m @ b))"
  shows "\<not> sepAt (drop i m)"
proof (cases "i \<le> length m")
  case True
  from assms have "\<not> sepAt (drop (length a + i) (a @ m @ b))" by blast
  with True have "\<not> sepAt (drop i m @ b)" by simp
  then show ?thesis using sepAt_append by blast
next
  case False
  then show ?thesis by (simp add: sepAt_Nil)
qed

lemma dropWhile_fixed: "xs = [] \<or> \<not> P (hd xs) \<Longrightarrow> dropWhile P xs = xs"
  by (cases xs) auto

lemma trim_idem: "trim (trim q) = trim q"
proof -
  let ?x = "dropWhile is_space q"
  let ?y = "dropWhile is_space (rev ?x)"
  have y: "?y = [] \<or> \<not> is_space (hd ?y)"
    using hd_dropWhile [of is_space "rev ?x"] by blast
  have x: "?x = [] \<or> \<not> is_space (hd ?x)"
    using hd_dropWhile [of is_space q] by blast
  have pre: "?x = rev ?y @ rev (takeWhile is_space (rev ?x))"
    by (simp only: rev_dropWhile_takeWhile)
  have "rev ?y = [] \<or> \<not> is_space (hd (rev ?y))"
  proof (cases "rev ?y")
    case Nil
    then show ?thesis by simp
  next
    case (Cons h t)
    with pre have "?x = h # (t @ rev (takeWhile is_space (rev ?x)))" by simp
    with x have "\<not> is_space h" by (metis list.sel(1) list.distinct(1))
    with Cons show ?thesis by simp
  qed
  then have a: "dropWhile is_space (rev ?y) = rev ?y" by (rule dropWhile_fixed)
  have b: "dropWhile is_space ?y = ?y" using y by (rule dropWhile_fixed)
  show ?thesis by (simp add: trim_def a b)
qed

lemma decompose_piece:
  assumes "p \<in> set (decomposeComplexStep step)"
  shows "decomposeComplexStep p = [p]"
proof -
  from assms obtain q where q: "q \<in> set (rx_split workflow_separator 0 [] step)" and p: "p = trim q"
    by (auto simp add: decomposeComplexStep_def)
  have nq: "\<forall>i. \<not> sepAt (drop i q)"
  proof
    fix i show "\<not> sepAt (drop i q)"
      using split_pieces [of 0 "[]" step q i] q by simp
  qed
  obtain a b where ab: "q = a @ trim q @ b" using trim_infix by blast
  have "\<forall>i. \<not> sepAt (drop i p)"
  proof
    fix i
    from nq ab have "\<forall>i. \<not> sepAt (drop i (a @ trim q @ b))" by simp
    then show "\<not> sepAt (drop i p)" unfolding p by (rule noSep_infix)
  qed
  then have "rx_split workflow_separator 0 [] p = [rev [] @ p]" by (rule split_noSep)
  then show ?thesis by (simp add: decomposeComplexStep_def p trim_idem)
qed

lemma those_None: "None \<in> set xs \<Longrightarrow> those xs = None"
  by (induction xs) (auto split: option.splits)

lemma those_Some: "\<forall>x \<in> set xs. x \<noteq> None \<Longrightarrow> those xs \<noteq> None"
  by (induction xs) (auto split: option.splits)

lemma workflow_returns:
  assumes "\<forall>p \<in> set (decomposeComplexStep step). stepIntent p \<noteq> complex_workflow"
  shows "generateWorkflowActions (Suc d) e step n = generateWorkflowActions (Suc 0) e step n \<and>
         generateWorkflowActions (Suc 0) e step n \<noteq> None"
proof -
  let ?ps = "decomposeComplexStep step"
  have leaf: "intelligentStepParser (Suc d) e p n = intelligentStepParser (Suc 0) e p n"
    "intelligentStepParser (Suc 0) e p n \<noteq> None" if "p \<in> set ?ps" for p d
    using assms that parser_leaf by blast+
  have m: "map (\<lambda>p. intelligentStepParser (Suc d) e p n) ?ps =
           map (\<lambda>p. intelligentStepParser (Suc 0) e p n) ?ps"
    by (rule map_cong [OF refl]) (rule leaf)
  have "\<forall>x \<in> set (map (\<lambda>p. intelligentStepParser (Suc 0) e p n) ?ps). x \<noteq> None"
  proof
    fix x assume "x \<in> set (map (\<lambda>p. intelligentStepParser (Suc 0) e p n) ?ps)"
    then obtain p where "p \<in> set ?ps" "x = intelligentStepParser (Suc 0) e p n"
      unfolding set_map by blast
    with leaf(2) show "x \<noteq> None" by blast
  qed
  then have "those (map (\<lambda>p. intelligentStepParser (Suc 0) e p n) ?ps) \<noteq> None"
    by (rule those_Some)
  with m show ?thesis by (simp only: generateWorkflowActions.simps option.map_disc_iff simp_thms)
qed

lemma workflow_never_returns:
  assumes "p \<in> set (decomposeComplexStep step)" "stepIntent p = complex_workflow"
  shows "generateWorkflowActions d e step n = None"
proof -
  from assms(1) have "decomposeComplexStep p = [p]" by (rule decompose_piece)
  with assms(2) have "intelligentStepParser d e p n = None" by (rule parser_loop)
  with assms(1) have "None \<in> set (map (\<lambda>p. intelligentStepParser d e p n) (decomposeComplexStep step))"
    unfolding set_map by (metis imageI)
  then have "those (map (\<lambda>p. intelligentStepParser d e p n) (decomposeComplexStep step)) = None"
    by (rule those_None)
  then show ?thesis by (simp only: generateWorkflowActions.simps option.map_disc_iff)
qed

lemma parser_never_returns:
  assumes "stepIntent step = complex_workflow"
    "p \<in> set (decomposeComplexStep step)" "stepIntent p = complex_workflow"
  shows "intelligentStepParser d e step n = None"
proof (cases d)
  case 0
  then show ?thesis by simp
next
  case (Suc d')
  with assms show ?thesis by (simp only: parser_complex workflow_never_returns)
qed

lemma parser_depth:
  "(\<forall>d. intelligentStepParser d e step n = None) \<or>
   (\<exists>acts. \<forall>d. intelligentStepParser (Suc (Suc d)) e step n = Some acts)"
proof (cases "stepIntent step = complex_workflow")
  case False
  then have "\<forall>d. intelligentStepParser (Suc (Suc d)) e step n = intelligentStepParser (Suc 0) e step n"
    and "intelligentStepParser (Suc 0) e step n \<noteq> None"
    using parser_leaf by blast+
  then show ?thesis by auto
next
  case True
  show ?thesis
  proof (cases "\<exists>p \<in> set (decomposeComplexStep step). stepIntent p = complex_workflow")
    case True
    with \<open>stepIntent step = complex_workflow\<close> show ?thesis
      using parser_never_returns by blast
  next
    case False
    then have "\<forall>p \<in> set (decomposeComplexStep step). stepIntent p \<noteq> complex_workflow" by blast
    then have w: "generateWorkflowActions (Suc d) e step n = generateWorkflowActions (Suc 0) e step n"
      and s: "generateWorkflowActions (Suc 0) e step n \<noteq> None" for d
      using workflow_returns by blast+
    from s obtain acts where acts: "generateWorkflowActions (Suc 0) e step n = Some acts"
      by blast
    have "intelligentStepParser (Suc (Suc d)) e step n = Some acts" for d
    proof -
      from True have "intelligentStepParser (Suc (Suc d)) e step n =
                      generateWorkflowActions (Suc d) e step n"
        by (rule parser_complex)
      with w acts show ?thesis by (simp only:)
    qed
    then show ?thesis by blast
  qed
qed

lemma parseSimpleStep_depth:
  "parseSimpleStep (Suc (Suc d)) e step n = parseSimpleStep (Suc (Suc d')) e step n"
proof -
  from parser_depth [of e step n]
  have "intelligentStepParser (Suc (Suc d)) e step n =
        intelligentStepParser (Suc (Suc d')) e step n"
    by (elim disjE exE) (simp_all only:)
  then show ?thesis by (simp only: parseSimpleStep_def)
qed

lemma parseStepByStepPrompt_depth:
  "parseStepByStepPrompt (Suc (Suc d)) e content = parseStepByStepPrompt (Suc (Suc d')) e content"
proof -
  have "parseSimpleStep (Suc (Suc d)) e = parseSimpleStep (Suc (Suc d')) e"
    by (intro ext) (rule parseSimpleStep_depth)
  then show ?thesis by (simp only: parseStepByStepPrompt_def)
qed

lemma parsePrompt_text_only:
  assumes "p_content p = p_content p'"
  shows "parsePromptToActions (Suc (Suc d)) e p = parsePromptToActions (Suc (Suc d')) e p'"
proof -
  have "parseStepByStepPrompt (Suc (Suc d)) e (p_content p') =
        parseStepByStepPrompt (Suc (Suc d')) e (p_content p')"
    by (rule parseStepByStepPrompt_depth)
  with assms show ?thesis by (simp only: parsePromptToActions_def)
qed

section \<open>Steps are parts of the prompt text\<close>

lemma starts_with_iff: "starts_with s t \<longleftrightarrow> (\<exists>b. s = t @ b)"
  by (induction s t rule: starts_with.induct) auto

lemma includes_str_iff: "includes_str s t \<longleftrightarrow> (\<exists>a b. s = a @ t @ b)"
proof (induction s)
  case Nil
  show ?case by auto
next
  case (Cons c cs)
  show ?case
  proof
    assume "includes_str (c # cs) t"
    then consider "starts_with (c # cs) t" | "includes_str cs t" by auto
    then show "\<exists>a b. c # cs = a @ t @ b"
    proof cases
      case 1
      then obtain b where "c # cs = t @ b" by (auto simp add: starts_with_iff)
      then have "c # cs = [] @ t @ b" by simp
      then show ?thesis by blast
    next
      case 2
      with Cons.IH obtain a b where "cs = a @ t @ b" by blast
      then have "c # cs = (c # a) @ t @ b" by simp
      then show ?thesis by blast
    qed
  next
    assume "\<exists>a b. c # cs = a @ t @ b"
    then obtain a b where ab: "c # cs = a @ t @ b" by blast
    show "includes_str (c # cs) t"
    proof (cases a)
      case Nil
      with ab have "starts_with (c # cs) t" by (auto simp add: starts_with_iff)
      then show ?thesis by simp
    next
      case (Cons x xs)
      with ab have "cs = xs @ t @ b" by simp
      with Cons.IH have "includes_str cs t" by blast
      then show ?thesis by simp
    qed
  qed
qed

lemma includes_str_mono: "includes_str x t \<Longrightarrow> includes_str (a @ x @ b) t"
proof -
  assume "includes_str x t"
  then obtain a' b' where "x = a' @ t @ b'" by (auto simp add: includes_str_iff)
  then have "a @ x @ b = (a @ a') @ t @ (b' @ b)" by simp
  then show ?thesis unfolding includes_str_iff by blast
qed

lemma isDataDrivenTest_mono: "isDataDrivenTest x \<Longrightarrow> isDataDrivenTest (a @ x @ b)"
  unfolding isDataDrivenTest_def hasInlineDatasets_def
  using includes_str_mono [of x _ a b] by blast

lemma split_on_head: "\<exists>x xs b. split_on d s = x # xs \<and> s = x @ b"
proof (induction s)
  case Nil
  show ?case by simp
next
  case (Cons c cs)
  then obtain x xs b where x: "split_on d cs = x # xs" "cs = x @ b" by blast
  show ?case
  proof (cases "c = d")
    case True
    then show ?thesis by simp
  next
    case False
    with x have "split_on d (c # cs) = (c # x) # xs \<and> c # cs = (c # x) @ b" by simp
    then show ?thesis by blast
  qed
qed

lemma split_on_infix: "l \<in> set (split_on d s) \<Longrightarrow> \<exists>a b. s = a @ l @ b"
proof (induction s arbitrary: l)
  case Nil
  then show ?case by simp
next
  case (Cons c cs)
  obtain x xs b where x: "split_on d cs = x # xs" "cs = x @ b"
    using split_on_head [of d cs] by blast
  have tail: "\<exists>a b. c # cs = a @ l @ b" if "l \<in> set (split_on d cs)"
  proof -
    from that Cons.IH obtain a b where "cs = a @ l @ b" by blast
    then have "c # cs = (c # a) @ l @ b" by simp
    then show ?thesis by blast
  qed
  show ?case
  proof (cases "c = d")
    case True
    with Cons.prems have "l = [] \<or> l \<in> set (split_on d cs)" by simp
    then show ?thesis
    proof
      assume "l = []"
      then have "c # cs = [] @ l @ (c # cs)" by simp
      then show ?thesis by blast
    qed (rule tail)
  next
    case False
    with x Cons.prems have "l = c # x \<or> l \<in> set xs" by simp
    then show ?thesis
    proof
      assume "l = c # x"
      with x have "c # cs = [] @ l @ b" by simp
      then show ?thesis by blast
    next
      assume "l \<in> set xs"
      with x have "l \<in> set (split_on d cs)" by simp
      then show ?thesis by (rule tail)
    qed
  qed
qed

lemma rx_star_suffix: "r \<in> set (rx_star p s) \<Longrightarrow> \<exists>a. s = a @ r"
proof (induction s)
  case Nil
  then show ?case by simp
next
  case (Cons c cs)
  then have "r = c # cs \<or> r \<in> set (rx_star p cs)" by (auto split: if_splits)
  then show ?case
  proof
    assume "r = c # cs" then show ?thesis by simp
  next
    assume "r \<in> set (rx_star p cs)"
    with Cons.IH obtain a where "cs = a @ r" by blast
    then have "c # cs = (c # a) @ r" by simp
    then show ?thesis by blast
  qed
qed

lemma rx_run_suffix: "(r, g') \<in> set (rx_run x (s, g)) \<Longrightarrow> \<exists>a. s = a @ r"
proof (induction x arbitrary: s g r g')
  case Eps
  then show ?case by simp
next
  case (Cls p)
  then show ?case by (cases s) (auto split: if_splits)
next
  case (Star p)
  then show ?case using rx_star_suffix by auto
next
  case (Plus p)
  show ?case
  proof (cases s)
    case Nil
    with Plus show ?thesis by simp
  next
    case (Cons c cs)
    with Plus have "r \<in> set (rx_star p cs)" by (auto split: if_splits)
    then obtain a where "cs = a @ r" using rx_star_suffix by blast
    with Cons have "s = (c # a) @ r" by simp
    then show ?thesis by blast
  qed
next
  case (Seq x1 x2)
  from Seq.prems obtain st where st: "st \<in> set (rx_run x1 (s, g))" "(r, g') \<in> set (rx_run x2 st)"
    by auto
  obtain r1 g1 where st': "st = (r1, g1)" by (cases st)
  from st st' Seq.IH(1) obtain a where a: "s = a @ r1" by blast
  from st st' Seq.IH(2) obtain b where b: "r1 = b @ r" by blast
  from a b have "s = (a @ b) @ r" by simp
  then show ?case by blast
next
  case (Alt x1 x2)
  then show ?case by auto
next
  case (Opt x)
  then show ?case by auto
next
  case (Grp n x)
  then show ?case by auto
qed






section \<open>Markers and triple lines in the prompt text\<close>

lemma toLowerCase_append: "toLowerCase (a @ b) = toLowerCase a @ toLowerCase b"
  by (simp add: toLowerCase_def)

lemma marker_part_marks_prompt:
  assumes "isDataDrivenTest (toLowerCase step)"
  shows "isDataDrivenTest (toLowerCase (a @ step @ b))"
  using isDataDrivenTest_mono [OF assms, of "toLowerCase a" "toLowerCase b"]
  by (simp only: toLowerCase_append)

lemma lit_i_Cons: "lit_i (c # w) = Seq (Cls (\<lambda>x. lower_char x = lower_char c)) (lit_i w)"
  by (simp add: lit_i_def)

lemma rx_run_lit_i:
  "(r, g') \<in> set (rx_run (lit_i w) (s, g)) \<Longrightarrow> \<exists>m. s = m @ r \<and> toLowerCase m = toLowerCase w"
proof (induction w arbitrary: s)
  case Nil
  then show ?case by (simp add: lit_i_def)
next
  case (Cons c w)
  note prems = Cons.prems and IH = Cons.IH
  show ?case
  proof (cases s)
    case Nil
    with prems show ?thesis by (simp add: lit_i_Cons)
  next
    case (Cons x xs)
    with prems have x: "lower_char x = lower_char c"
      and "(r, g') \<in> set (rx_run (lit_i w) (xs, g))"
      by (simp_all add: lit_i_Cons split: if_splits)
    with IH obtain m where "xs = m @ r" "toLowerCase m = toLowerCase w" by blast
    with x Cons have "s = (x # m) @ r \<and> toLowerCase (x # m) = toLowerCase (c # w)"
      by (simp add: toLowerCase_def)
    then show ?thesis by blast
  qed
qed

lemma seqs_Cons: "seqs (x # xs) = Seq x (seqs xs)"
  by (simp add: seqs_def)

lemma rx_run_Seq_elim:
  "(r, g') \<in> set (rx_run (Seq a b) st) \<Longrightarrow>
   \<exists>r1 g1. (r1, g1) \<in> set (rx_run a st) \<and> (r, g') \<in> set (rx_run b (r1, g1))"
  by auto

lemma seqs_lit_includes:
  "(r, g') \<in> set (rx_run (seqs (pre @ lit_i w # post)) (s, g)) \<Longrightarrow>
   includes_str (toLowerCase s) (toLowerCase w)"
proof (induction pre arbitrary: s g)
  case Nil
  then have "(r, g') \<in> set (rx_run (Seq (lit_i w) (seqs post)) (s, g))"
    by (simp only: append_Nil seqs_Cons)
  then obtain r1 g1 where "(r1, g1) \<in> set (rx_run (lit_i w) (s, g))"
    using rx_run_Seq_elim by blast
  then obtain m where "s = m @ r1" "toLowerCase m = toLowerCase w"
    using rx_run_lit_i by blast
  then have "toLowerCase s = [] @ toLowerCase w @ toLowerCase r1"
    by (simp add: toLowerCase_append)
  then show ?case unfolding includes_str_iff by blast
next
  case (Cons x pre)
  then have "(r, g') \<in> set (rx_run (Seq x (seqs (pre @ lit_i w # post))) (s, g))"
    by (simp only: append_Cons seqs_Cons)
  then obtain r1 g1 where st: "(r1, g1) \<in> set (rx_run x (s, g))"
    "(r, g') \<in> set (rx_run (seqs (pre @ lit_i w # post)) (r1, g1))"
    using rx_run_Seq_elim by blast
  then obtain a where a: "s = a @ r1" using rx_run_suffix by blast
  from st(2) have "includes_str (toLowerCase r1) (toLowerCase w)" by (rule Cons.IH)
  then have "includes_str (toLowerCase a @ toLowerCase r1 @ []) (toLowerCase w)"
    by (rule includes_str_mono)
  with a show ?case by (simp add: toLowerCase_append)
qed

lemma rx_at_run: "rx_at x t \<noteq> None \<Longrightarrow> \<exists>r g. (r, g) \<in> set (rx_run x (t, no_caps))"
proof -
  assume "rx_at x t \<noteq> None"
  then have "rx_run x (t, no_caps) \<noteq> []"
    unfolding rx_at_def by (cases "rx_run x (t, no_caps)") simp_all
  then have "hd (rx_run x (t, no_caps)) \<in> set (rx_run x (t, no_caps))" by (rule hd_in_set)
  then have "(fst (hd (rx_run x (t, no_caps))), snd (hd (rx_run x (t, no_caps))))
      \<in> set (rx_run x (t, no_caps))" by simp
  then show ?thesis by blast
qed

lemma rx_exec_drop:
  "rx_exec x s \<noteq> None \<Longrightarrow> \<exists>n r g. (r, g) \<in> set (rx_run x (drop n s, no_caps))"
proof (induction s)
  case Nil
  then have "rx_at x [] \<noteq> None" by simp
  then obtain r g where "(r, g) \<in> set (rx_run x ([], no_caps))" using rx_at_run by blast
  then have "(r, g) \<in> set (rx_run x (drop 0 [], no_caps))" by simp
  then show ?case by (intro exI)
next
  case (Cons c cs)
  show ?case
  proof (cases "rx_at x (c # cs)")
    case None
    with Cons.prems have "rx_exec x cs \<noteq> None" by simp
    then have "\<exists>n r g. (r, g) \<in> set (rx_run x (drop n cs, no_caps))" by (rule Cons.IH)
    then obtain n r g where "(r, g) \<in> set (rx_run x (drop n cs, no_caps))" by (elim exE)
    then have "(r, g) \<in> set (rx_run x (drop (Suc n) (c # cs), no_caps))" by simp
    then show ?thesis by (intro exI)
  next
    case (Some m)
    then have "rx_at x (c # cs) \<noteq> None" by simp
    then obtain r g where "(r, g) \<in> set (rx_run x (c # cs, no_caps))" using rx_at_run by blast
    then have "(r, g) \<in> set (rx_run x (drop 0 (c # cs), no_caps))" by simp
    then show ?thesis by (intro exI)
  qed
qed

lemma rx_exec_part:
  "rx_exec x s \<noteq> None \<Longrightarrow> \<exists>a t r g. s = a @ t \<and> (r, g) \<in> set (rx_run x (t, no_caps))"
proof -
  assume "rx_exec x s \<noteq> None"
  then obtain n r g where "(r, g) \<in> set (rx_run x (drop n s, no_caps))"
    using rx_exec_drop by blast
  then have "s = take n s @ drop n s \<and> (r, g) \<in> set (rx_run x (drop n s, no_caps))" by simp
  then show ?thesis by (intro exI)
qed

lemma triple_labels:
  assumes "wellFormedTriple l"
  shows "includes_str (toLowerCase l) ''username:'' \<and> includes_str (toLowerCase l) ''password:'' \<and>
         includes_str (toLowerCase l) ''expected:''"
proof -
  from assms obtain a t r g where l: "l = a @ t" and m: "(r, g) \<in> set (rx_run inlinePattern (t, no_caps))"
    unfolding wellFormedTriple_def rx_test_def using rx_exec_part by blast
  have low: "toLowerCase ''username:'' = ''username:''" "toLowerCase ''password:'' = ''password:''"
    "toLowerCase ''expected:'' = ''expected:''"
    by code_simp+
  have u: "includes_str (toLowerCase t) (toLowerCase ''username:'')"
    using m seqs_lit_includes [of r g "[Star re_dot]" "''username:''" _ t no_caps]
    by (simp add: inlinePattern_def)
  have p: "includes_str (toLowerCase t) (toLowerCase ''password:'')"
    using m seqs_lit_includes [of r g "[Star re_dot, lit_i ''username:'', Star is_space,
        Grp 1 (Plus (\<lambda>c. c \<noteq> CHR '','')), lit_i '','', Star re_dot]" "''password:''" _ t no_caps]
    by (simp add: inlinePattern_def)
  have x: "includes_str (toLowerCase t) (toLowerCase ''expected:'')"
    using m seqs_lit_includes [of r g "[Star re_dot, lit_i ''username:'', Star is_space,
        Grp 1 (Plus (\<lambda>c. c \<noteq> CHR '','')), lit_i '','', Star re_dot, lit_i ''password:'', Star is_space,
        Grp 2 (Plus (\<lambda>c. c \<noteq> CHR '','')), lit_i '','', Star re_dot]" "''expected:''" _ t no_caps]
    by (simp add: inlinePattern_def)
  from u p x have "includes_str (toLowerCase a @ toLowerCase t @ []) ''username:'' \<and>
     includes_str (toLowerCase a @ toLowerCase t @ []) ''password:'' \<and>
     includes_str (toLowerCase a @ toLowerCase t @ []) ''expected:''"
    unfolding low using includes_str_mono by blast
  then show ?thesis by (simp add: l toLowerCase_append)
qed

lemma triple_line_marks_prompt:
  assumes "filter wellFormedTriple (lines_of content) \<noteq> []"
  shows "isDataDrivenTest (toLowerCase content)"
proof -
  from assms obtain l where l: "l \<in> set (lines_of content)" "wellFormedTriple l"
    by (metis filter_False)
  then obtain a b where c: "content = a @ l @ b"
    unfolding lines_of_def using split_on_infix by blast
  from l(2) have "includes_str (toLowerCase l) ''username:'' \<and>
     includes_str (toLowerCase l) ''password:'' \<and> includes_str (toLowerCase l) ''expected:''"
    by (rule triple_labels)
  then have "isDataDrivenTest (toLowerCase l)"
    by (simp add: isDataDrivenTest_def hasInlineDatasets_def)
  then show ?thesis unfolding c by (rule marker_part_marks_prompt)
qed

lemma username_label_recognised:
  assumes "line \<in> set (lines_of step)" "includes_str line ''Username:''"
  shows "hasInlineDatasets step"
proof -
  from assms(1) obtain a b where "step = a @ line @ b"
    unfolding lines_of_def using split_on_infix by blast
  with assms(2) have "includes_str step ''Username:''" using includes_str_mono by blast
  then show ?thesis by (simp add: hasInlineDatasets_def)
qed

lemma extracted_rows:
  "(filter wellFormedTriple (lines_of step) \<noteq> [] \<longrightarrow>
      length (extractInlineDatasets step) = length (filter wellFormedTriple (lines_of step)) \<and>
      (\<forall>i < length (extractInlineDatasets step).
         inlineRow (filter wellFormedTriple (lines_of step) ! i) =
         Some (extractInlineDatasets step ! i))) \<and>
   (filter wellFormedTriple (lines_of step) = [] \<longrightarrow>
      extractInlineDatasets step = blockScan (lines_of step))"
proof -
  let ?ts = "filter wellFormedTriple (lines_of step)"
  have row: "inlineRow (?ts ! i) = Some (map (the \<circ> inlineRow) ?ts ! i)" if "i < length ?ts" for i
  proof -
    from that have "?ts ! i \<in> set ?ts" by (rule nth_mem)
    then have "wellFormedTriple (?ts ! i)" by simp
    then have "inlineRow (?ts ! i) \<noteq> None" by (simp add: wellFormedTriple_iff)
    with that show ?thesis by auto
  qed
  have one: "length (extractInlineDatasets step) = length ?ts \<and>
      (\<forall>i < length (extractInlineDatasets step).
         inlineRow (?ts ! i) = Some (extractInlineDatasets step ! i))" if ne: "?ts \<noteq> []"
  proof -
    from ne have ex: "extractInlineDatasets step = map (the \<circ> inlineRow) ?ts"
      by (simp add: extractInlineDatasets_def Let_def inline_rows)
    show ?thesis unfolding ex using row by simp
  qed
  have two: "extractInlineDatasets step = blockScan (lines_of step)" if "?ts = []"
    using that by (simp add: extractInlineDatasets_def Let_def inline_rows)
  from one two show ?thesis by blast
qed

lemma inline_blocks:
  "\<exists>blocks.
     generateInlineDataActions e step n = concat blocks \<and>
     length blocks = length (extractInlineDatasets step) \<and>
     (\<forall>i < length blocks.
        map a_value (filter (isFillOf ''username input field'') (blocks ! i)) =
          [Some (ds_username (extractInlineDatasets step ! i))] \<and>
        map a_value (filter (isFillOf ''password input field'') (blocks ! i)) =
          [Some (ds_password (extractInlineDatasets step ! i))] \<and>
        length (filter (isClickOf ''login button'') (blocks ! i)) = 1)"
proof -
  let ?rows = "extractInlineDatasets step"
  let ?blocks = "map (\<lambda>(index, dataset).
                        inlineRowActions e step n (length ?rows) index dataset)
                   (enumerate 0 ?rows)"
  have g: "generateInlineDataActions e step n = concat ?blocks"
    by (simp add: generateInlineDataActions_def Let_def)
  have len: "length ?blocks = length ?rows" by simp
  have blk: "?blocks ! i = inlineRowActions e step n (length ?rows) i (?rows ! i)"
    if "i < length ?rows" for i
    using that by (simp add: nth_enumerate_eq)
  have "\<forall>i < length ?blocks.
        map a_value (filter (isFillOf ''username input field'') (?blocks ! i)) =
          [Some (ds_username (?rows ! i))] \<and>
        map a_value (filter (isFillOf ''password input field'') (?blocks ! i)) =
          [Some (ds_password (?rows ! i))] \<and>
        length (filter (isClickOf ''login button'') (?blocks ! i)) = 1"
  proof (intro allI impI)
    fix i assume "i < length ?blocks"
    then have i: "i < length ?rows" by simp
    show "map a_value (filter (isFillOf ''username input field'') (?blocks ! i)) =
          [Some (ds_username (?rows ! i))] \<and>
        map a_value (filter (isFillOf ''password input field'') (?blocks ! i)) =
          [Some (ds_password (?rows ! i))] \<and>
        length (filter (isClickOf ''login button'') (?blocks ! i)) = 1"
      unfolding blk [OF i]
      using block_fill_username block_fill_password block_click_login by simp
  qed
  with g len show ?thesis by blast
qed

lemma demo_block_lines:
  "lines_of demo_block =
   [''Test data:'', ''Username: Admin'', ''Password: admin123'', ''Expected: Dashboard'']"
  by code_simp

lemma demo_block_has_no_triple: "filter wellFormedTriple (lines_of demo_block) = []"
proof -
  have "\<not> includes_str (toLowerCase ''Test data:'') ''username:'' \<and>
        \<not> includes_str (toLowerCase ''Username: Admin'') ''password:'' \<and>
        \<not> includes_str (toLowerCase ''Password: admin123'') ''username:'' \<and>
        \<not> includes_str (toLowerCase ''Expected: Dashboard'') ''username:''"
    by code_simp
  then have "\<not> wellFormedTriple ''Test data:'' \<and> \<not> wellFormedTriple ''Username: Admin'' \<and>
        \<not> wellFormedTriple ''Password: admin123'' \<and> \<not> wellFormedTriple ''Expected: Dashboard''"
    using triple_labels by blast
  then show ?thesis by (simp add: demo_block_lines)
qed

section \<open>The claims\<close>

text \<open>
  C1. Claimed: for every non-empty prompt text the sequence compiled by
  \<open>parsePromptToActions\<close> is non-empty. The prompt \<open>test data:\<close> is non-empty and
  carries a dataset marker, so the data-driven branch returns at once; no line holds a
  row, and the result is the empty sequence. The default action at the end of
  \<open>parsePromptToActions\<close> is not reached.
\<close>

theorem C1_marker_only_prompt_compiles_to_nothing:
  "parsePromptToActions d e
     \<lparr>p_file = f, p_title = t, p_content = ''test data:'', p_tags = g\<rparr> = []"
  by code_simp

text \<open>
  C2. Claimed: the decomposition of a compound step recurses to depth 2 at most, and
  text that would need more is classified as one \<open>unknown\<close> step. The source has no
  depth counter and no such cut-off. Amended: a step that is not compound returns
  within depth 1; a compound step is split on \<open>and\<close> / \<open>then\<close> and each trimmed
  sub-clause is classified again; if no sub-clause is again compound, the decomposition
  returns within depth 2; if some sub-clause is again compound (the split leaves such
  a sub-clause unchanged), the recursion returns at no depth, and \<open>parseSimpleStep\<close>
  answers with \<open>fallbackBasicParser\<close>.
\<close>

theorem C2_decomposition_is_unbounded_and_returns_within_depth_two_or_never:
  "(stepIntent step \<noteq> complex_workflow \<longrightarrow>
      (\<exists>acts. \<forall>d. intelligentStepParser (Suc d) e step n = Some acts)) \<and>
   (stepIntent step = complex_workflow \<and>
    (\<forall>p \<in> set (decomposeComplexStep step). stepIntent p \<noteq> complex_workflow) \<longrightarrow>
      (\<exists>acts. \<forall>d. intelligentStepParser (Suc (Suc d)) e step n = Some acts)) \<and>
   (stepIntent step = complex_workflow \<and>
    (\<exists>p \<in> set (decomposeComplexStep step). stepIntent p = complex_workflow) \<longrightarrow>
      (\<forall>d. intelligentStepParser d e step n = None \<and>
           parseSimpleStep d e step n = fallbackBasicParser e step n))"
proof (intro conjI impI)
  assume "stepIntent step \<noteq> complex_workflow"
  then have "\<forall>d. intelligentStepParser (Suc d) e step n = intelligentStepParser (Suc 0) e step n"
    and "intelligentStepParser (Suc 0) e step n \<noteq> None"
    using parser_leaf by blast+
  then show "\<exists>acts. \<forall>d. intelligentStepParser (Suc d) e step n = Some acts" by auto
next
  assume a: "stepIntent step = complex_workflow \<and>
    (\<forall>p \<in> set (decomposeComplexStep step). stepIntent p \<noteq> complex_workflow)"
  then have w: "generateWorkflowActions (Suc d) e step n = generateWorkflowActions (Suc 0) e step n"
    and s: "generateWorkflowActions (Suc 0) e step n \<noteq> None" for d
    using workflow_returns by blast+
  from s obtain acts where acts: "generateWorkflowActions (Suc 0) e step n = Some acts"
    by blast
  have "intelligentStepParser (Suc (Suc d)) e step n = Some acts" for d
  proof -
    from a have "intelligentStepParser (Suc (Suc d)) e step n =
                 generateWorkflowActions (Suc d) e step n"
      by (simp only: parser_complex)
    with w acts show ?thesis by (simp only:)
  qed
  then show "\<exists>acts. \<forall>d. intelligentStepParser (Suc (Suc d)) e step n = Some acts" by blast
next
  assume a: "stepIntent step = complex_workflow \<and>
    (\<exists>p \<in> set (decomposeComplexStep step). stepIntent p = complex_workflow)"
  then have none: "intelligentStepParser d e step n = None" for d
    using parser_never_returns by blast
  show "\<forall>d. intelligentStepParser d e step n = None \<and>
           parseSimpleStep d e step n = fallbackBasicParser e step n"
    by (simp add: parseSimpleStep_def none del: intelligentStepParser.simps)
qed

theorem C2_witness:
  "stepIntent ''Hello'' \<noteq> complex_workflow \<and>
   (\<exists>acts. \<forall>d. intelligentStepParser (Suc d) demo_env ''Hello'' 1 = Some acts) \<and>
   stepIntent ''look and see'' = complex_workflow \<and>
   decomposeComplexStep ''look and see'' = [''look'', ''see''] \<and>
   stepIntent ''look'' \<noteq> complex_workflow \<and> stepIntent ''see'' \<noteq> complex_workflow \<and>
   (\<exists>acts. \<forall>d. intelligentStepParser (Suc (Suc d)) demo_env ''look and see'' 1 = Some acts) \<and>
   stepIntent ''a b c d e f g h i j k'' = complex_workflow \<and>
   decomposeComplexStep ''a b c d e f g h i j k'' = [''a b c d e f g h i j k''] \<and>
   (\<forall>d. intelligentStepParser d demo_env ''a b c d e f g h i j k'' 1 = None \<and>
        parseSimpleStep d demo_env ''a b c d e f g h i j k'' 1 =
        fallbackBasicParser demo_env ''a b c d e f g h i j k'' 1)"
proof -
  have a: "stepIntent ''Hello'' \<noteq> complex_workflow"
    by code_simp
  have b: "stepIntent ''look and see'' = complex_workflow \<and>
     decomposeComplexStep ''look and see'' = [''look'', ''see''] \<and>
     stepIntent ''look'' \<noteq> complex_workflow \<and> stepIntent ''see'' \<noteq> complex_workflow"
    by code_simp
  then have b': "\<forall>p \<in> set (decomposeComplexStep ''look and see'').
      stepIntent p \<noteq> complex_workflow"
    by simp
  have c: "stepIntent ''a b c d e f g h i j k'' = complex_workflow \<and>
     decomposeComplexStep ''a b c d e f g h i j k'' = [''a b c d e f g h i j k'']"
    by code_simp
  then have c': "\<exists>p \<in> set (decomposeComplexStep ''a b c d e f g h i j k'').
      stepIntent p = complex_workflow"
    by simp
  from a b b' c c'
    C2_decomposition_is_unbounded_and_returns_within_depth_two_or_never
      [of "''Hello''" demo_env 1]
    C2_decomposition_is_unbounded_and_returns_within_depth_two_or_never
      [of "''look and see''" demo_env 1]
    C2_decomposition_is_unbounded_and_returns_within_depth_two_or_never
      [of "''a b c d e f g h i j k''" demo_env 1]
  show ?thesis by blast
qed

theorem C2_counterexample:
  "stepIntent ''a b c d e f g h i j k'' = complex_workflow \<and>
   decomposeComplexStep ''a b c d e f g h i j k'' = [''a b c d e f g h i j k''] \<and>
   intelligentStepParser 10 demo_env ''a b c d e f g h i j k'' 1 = None \<and>
   map a_type (parseSimpleStep 10 demo_env ''a b c d e f g h i j k'' 1) = [Wait]"
  by code_simp



text \<open>
  C4. Claimed: for an external data-driven step whose CSV file is missing the compiled
  sequence is the default-credential login block. \<open>readCSVData\<close> does degrade to the
  empty dataset without an error, but then no action at all is generated: with no
  readable file in \<open>test-data\<close> every external step compiles to the empty sequence.
\<close>

theorem C4_missing_csv_compiles_to_nothing:
  "generateCSVDataActions (e\<lparr>testData := \<lambda>f. None\<rparr>) step n = [] \<and>
   readCSVData demo_env ''missing.csv'' = [] \<and>
   parsePromptToActions d demo_env
     (prompt_of ''Run the login test with data from missing.csv'') = []"
proof -
  have "generateCSVDataActions (e\<lparr>testData := \<lambda>f. None\<rparr>) step n = []"
    by (simp add: generateCSVDataActions_def readCSVData_def)
  moreover have "readCSVData demo_env ''missing.csv'' = []"
    by (simp add: readCSVData_def demo_env_def)
  moreover have "parsePromptToActions d demo_env
     (prompt_of ''Run the login test with data from missing.csv'') = []"
    by code_simp
  ultimately show ?thesis by blast
qed

text \<open>
  C5. Claimed: for every row, inline or from a CSV file, an expected field containing
  \<open>error\<close> gives the error-message assertion. The inline expander does so; the CSV
  expander tests only \<open>invalid\<close>, and the row \<open>bob,wrong,Error shown\<close> of a CSV file
  gets no assertion, while the same row written inline gets one.
\<close>

theorem C5_csv_row_with_error_gets_no_assert:
  "map a_type
     (generateCSVDataActions demo_csv_env ''Run the login test for each row of loginData.csv'' 1) =
   [Navigate, Fill, Fill, Click, Wait] \<and>
   filter (\<lambda>a. a_type a = Assert)
     (generateInlineDataActions demo_env ''Username: bob, Password: wrong, Expected: Error shown'' 1) =
   [mk_assert ''error message'' ''contains:Invalid credentials''
      ''Step 1.1: Verify error message for invalid credentials'']"
  by code_simp

text \<open>
  C6. Claimed: a step in which no intent keyword matches compiles to one \<open>Wait\<close> of
  1000 ms. In the source such a step, when it is neither compound nor data-driven, goes
  to \<open>generateSemanticActions\<close>. Amended: it compiles to exactly one \<open>Click\<close> on
  \<open>interactive element\<close> described by the step text; the single \<open>Wait\<close> of 1000 ms
  (\<open>Default wait action\<close>) is what \<open>parseSimpleStep\<close> emits when the parser returned
  no action for a step that contains neither \<open>navigate\<close> nor \<open>login\<close>.
\<close>

theorem C6_unclassified_step_is_one_click:
  "(noKeyword (trim (toLowerCase step)) \<and> \<not> isComplexWorkflow (trim (toLowerCase step)) \<and>
    \<not> isDataDrivenTest (trim (toLowerCase step)) \<longrightarrow>
      parseSimpleStep (Suc d) e step n =
      [mk_click ''interactive element'' (stepLabel n @ step)]) \<and>
   (intelligentStepParser d' e step' n = Some [] \<and>
    \<not> includes_str (toLowerCase step') ''navigate'' \<and>
    \<not> includes_str (toLowerCase step') ''login'' \<longrightarrow>
      parseSimpleStep d' e step' n = [mk_wait 1000 (stepLabel n @ ''Default wait action'')])"
proof -
  have "parseSimpleStep (Suc d) e step n =
        [mk_click ''interactive element'' (stepLabel n @ step)]"
    if "noKeyword (trim (toLowerCase step))" "\<not> isComplexWorkflow (trim (toLowerCase step))"
       "\<not> isDataDrivenTest (trim (toLowerCase step))"
    using that classify_unknown [of "trim (toLowerCase step)"]
    by (simp add: parseSimpleStep_def generateSemanticActions_def semanticAnalysis_def
          mk_click_def act_def)
  moreover have "parseSimpleStep d' e step' n =
        [mk_wait 1000 (stepLabel n @ ''Default wait action'')]"
    if "intelligentStepParser d' e step' n = Some []"
       "\<not> includes_str (toLowerCase step') ''navigate''"
       "\<not> includes_str (toLowerCase step') ''login''"
    using that by (simp add: parseSimpleStep_def fallbackBasicParser_def)
  ultimately show ?thesis by blast
qed

theorem C6_witness:
  "noKeyword (trim (toLowerCase ''Hello world'')) \<and>
   \<not> isComplexWorkflow (trim (toLowerCase ''Hello world'')) \<and>
   \<not> isDataDrivenTest (trim (toLowerCase ''Hello world'')) \<and>
   parseSimpleStep (Suc 1) demo_env ''Hello world'' 4 =
   [mk_click ''interactive element'' (stepLabel 4 @ ''Hello world'')] \<and>
   intelligentStepParser 2 demo_env ''Enter something'' 4 = Some [] \<and>
   \<not> includes_str (toLowerCase ''Enter something'') ''navigate'' \<and>
   \<not> includes_str (toLowerCase ''Enter something'') ''login'' \<and>
   parseSimpleStep 2 demo_env ''Enter something'' 4 =
   [mk_wait 1000 (stepLabel 4 @ ''Default wait action'')]"
proof -
  have a: "noKeyword (trim (toLowerCase ''Hello world'')) \<and>
     \<not> isComplexWorkflow (trim (toLowerCase ''Hello world'')) \<and>
     \<not> isDataDrivenTest (trim (toLowerCase ''Hello world''))"
    by code_simp
  have b: "intelligentStepParser 2 demo_env ''Enter something'' 4 = Some [] \<and>
     \<not> includes_str (toLowerCase ''Enter something'') ''navigate'' \<and>
     \<not> includes_str (toLowerCase ''Enter something'') ''login''"
    by code_simp
  from a b
    C6_unclassified_step_is_one_click
      [of "''Hello world''" 1 demo_env 4 2 "''Enter something''"]
  show ?thesis by blast
qed

theorem C6_counterexample:
  "noKeyword (trim (toLowerCase ''Hello world'')) \<and>
   map a_type (parseSimpleStep 2 demo_env ''Hello world'' 4) = [Click] \<and>
   map a_timeout (parseSimpleStep 2 demo_env ''Hello world'' 4) \<noteq> [Some 1000]"
  by code_simp

text \<open>
  C7. Claimed: a text with N one-line triples gives exactly N row blocks. A line is a
  well-formed triple when the one-line pattern \<open>username: X, password: Y, expected: Z\<close>
  matches it. With no such line the expander falls back to the block scan, which can
  still give rows: N = 0 and one block. Amended: for a text that the expander
  recognises as inline (\<open>hasInlineDatasets\<close>, which holds whenever a line contains
  \<open>Username:\<close>), the output is the concatenation of one block per row, each block
  with exactly one \<open>Fill\<close> of the username field, with the row's username, exactly one
  \<open>Fill\<close> of the password field, with the row's password, and exactly one \<open>Click\<close>
  of the login button. With N of at least 1 well-formed lines the rows are those N
  lines', in the order of the lines, and \<open>parsePromptToActions\<close> gives this output;
  with no well-formed line the rows are those of the block scan.
\<close>

theorem C7_recognised_inline_text_gives_one_block_per_row:
  "(hasInlineDatasets step \<longrightarrow>
      (\<exists>blocks rows.
         generateDataDrivenActions e step n = concat blocks \<and> length blocks = length rows \<and>
         (filter wellFormedTriple (lines_of step) \<noteq> [] \<longrightarrow>
            length rows = length (filter wellFormedTriple (lines_of step)) \<and>
            (\<forall>i < length rows.
               inlineRow (filter wellFormedTriple (lines_of step) ! i) = Some (rows ! i))) \<and>
         (filter wellFormedTriple (lines_of step) = [] \<longrightarrow> rows = blockScan (lines_of step)) \<and>
         (\<forall>i < length blocks.
            map a_value (filter (isFillOf ''username input field'') (blocks ! i)) =
              [Some (ds_username (rows ! i))] \<and>
            map a_value (filter (isFillOf ''password input field'') (blocks ! i)) =
              [Some (ds_password (rows ! i))] \<and>
            length (filter (isClickOf ''login button'') (blocks ! i)) = 1))) \<and>
   (filter wellFormedTriple (lines_of (p_content p)) \<noteq> [] \<longrightarrow>
      parsePromptToActions d e p = generateDataDrivenActions e (p_content p) 1) \<and>
   (line \<in> set (lines_of step') \<and> includes_str line ''Username:'' \<longrightarrow> hasInlineDatasets step')"
proof (intro conjI impI)
  assume h: "hasInlineDatasets step"
  from inline_blocks [of e step n] obtain blocks where b:
    "generateInlineDataActions e step n = concat blocks"
    "length blocks = length (extractInlineDatasets step)"
    "\<forall>i < length blocks.
        map a_value (filter (isFillOf ''username input field'') (blocks ! i)) =
          [Some (ds_username (extractInlineDatasets step ! i))] \<and>
        map a_value (filter (isFillOf ''password input field'') (blocks ! i)) =
          [Some (ds_password (extractInlineDatasets step ! i))] \<and>
        length (filter (isClickOf ''login button'') (blocks ! i)) = 1"
    by blast
  from h b(1) have g: "generateDataDrivenActions e step n = concat blocks"
    by (simp add: generateDataDrivenActions_def)
  from g b(2,3) extracted_rows [of step]
  show "\<exists>blocks rows.
         generateDataDrivenActions e step n = concat blocks \<and> length blocks = length rows \<and>
         (filter wellFormedTriple (lines_of step) \<noteq> [] \<longrightarrow>
            length rows = length (filter wellFormedTriple (lines_of step)) \<and>
            (\<forall>i < length rows.
               inlineRow (filter wellFormedTriple (lines_of step) ! i) = Some (rows ! i))) \<and>
         (filter wellFormedTriple (lines_of step) = [] \<longrightarrow> rows = blockScan (lines_of step)) \<and>
         (\<forall>i < length blocks.
            map a_value (filter (isFillOf ''username input field'') (blocks ! i)) =
              [Some (ds_username (rows ! i))] \<and>
            map a_value (filter (isFillOf ''password input field'') (blocks ! i)) =
              [Some (ds_password (rows ! i))] \<and>
            length (filter (isClickOf ''login button'') (blocks ! i)) = 1)"
    by (intro exI [of _ blocks] exI [of _ "extractInlineDatasets step"]) simp
next
  assume "filter wellFormedTriple (lines_of (p_content p)) \<noteq> []"
  then have "isDataDrivenTest (toLowerCase (p_content p))" by (rule triple_line_marks_prompt)
  then show "parsePromptToActions d e p = generateDataDrivenActions e (p_content p) 1"
    by (simp add: parsePromptToActions_def)
next
  assume "line \<in> set (lines_of step') \<and> includes_str line ''Username:''"
  then show "hasInlineDatasets step'" using username_label_recognised by blast
qed

theorem C7_witness:
  "hasInlineDatasets demo_inline \<and>
   length (filter wellFormedTriple (lines_of demo_inline)) = 2 \<and>
   (\<exists>blocks rows.
      generateDataDrivenActions demo_env demo_inline 1 = concat blocks \<and>
      length blocks = length rows \<and> length rows = 2 \<and>
      inlineRow (filter wellFormedTriple (lines_of demo_inline) ! 0) = Some (rows ! 0) \<and>
      inlineRow (filter wellFormedTriple (lines_of demo_inline) ! 1) = Some (rows ! 1) \<and>
      length (filter (isClickOf ''login button'') (blocks ! 0)) = 1 \<and>
      length (filter (isClickOf ''login button'') (blocks ! 1)) = 1) \<and>
   hasInlineDatasets demo_block \<and>
   filter wellFormedTriple (lines_of demo_block) = [] \<and>
   (\<exists>blocks rows.
      generateDataDrivenActions demo_env demo_block 1 = concat blocks \<and>
      length blocks = length rows \<and> rows = blockScan (lines_of demo_block)) \<and>
   parsePromptToActions 2 demo_env (prompt_of demo_inline) =
   generateDataDrivenActions demo_env (p_content (prompt_of demo_inline)) 1 \<and>
   lines_of demo_block =
   [''Test data:'', ''Username: Admin'', ''Password: admin123'', ''Expected: Dashboard''] \<and>
   includes_str ''Username: Admin'' ''Username:''"
proof -
  have a: "hasInlineDatasets demo_inline \<and>
     length (filter wellFormedTriple (lines_of demo_inline)) = 2"
    by code_simp
  then have a': "filter wellFormedTriple (lines_of demo_inline) \<noteq> []" by auto
  have a'': "filter wellFormedTriple (lines_of (p_content (prompt_of demo_inline))) \<noteq> []"
    using a' by (simp add: prompt_of_def)
  have "hasInlineDatasets demo_block"
    by code_simp
  then have b: "hasInlineDatasets demo_block \<and> filter wellFormedTriple (lines_of demo_block) = []"
    using demo_block_has_no_triple by simp
  have "includes_str ''Username: Admin'' ''Username:''"
    by code_simp
  then have c: "lines_of demo_block =
     [''Test data:'', ''Username: Admin'', ''Password: admin123'', ''Expected: Dashboard''] \<and>
     includes_str ''Username: Admin'' ''Username:''"
    using demo_block_lines by simp
  note t1 = C7_recognised_inline_text_gives_one_block_per_row
      [of demo_inline demo_env 1 "prompt_of demo_inline" 2 "''Username: Admin''" demo_block]
  note t2 = C7_recognised_inline_text_gives_one_block_per_row
      [of demo_block demo_env 1 "prompt_of demo_inline" 2 "''Username: Admin''" demo_block]
  from t1 a obtain blocks rows where r:
    "generateDataDrivenActions demo_env demo_inline 1 = concat blocks"
    "length blocks = length rows"
    "filter wellFormedTriple (lines_of demo_inline) \<noteq> [] \<longrightarrow>
       length rows = length (filter wellFormedTriple (lines_of demo_inline)) \<and>
       (\<forall>i < length rows.
          inlineRow (filter wellFormedTriple (lines_of demo_inline) ! i) = Some (rows ! i))"
    "\<forall>i < length blocks.
       map a_value (filter (isFillOf ''username input field'') (blocks ! i)) =
         [Some (ds_username (rows ! i))] \<and>
       map a_value (filter (isFillOf ''password input field'') (blocks ! i)) =
         [Some (ds_password (rows ! i))] \<and>
       length (filter (isClickOf ''login button'') (blocks ! i)) = 1"
    by blast
  from r(3) a a' have l2: "length rows = 2"
    and rows: "\<forall>i < length rows.
          inlineRow (filter wellFormedTriple (lines_of demo_inline) ! i) = Some (rows ! i)"
    by simp_all
  from rows l2 have r01: "inlineRow (filter wellFormedTriple (lines_of demo_inline) ! 0) = Some (rows ! 0)"
    "inlineRow (filter wellFormedTriple (lines_of demo_inline) ! 1) = Some (rows ! 1)"
    by simp_all
  from r(4) r(2) l2 have c01: "length (filter (isClickOf ''login button'') (blocks ! 0)) = 1"
    "length (filter (isClickOf ''login button'') (blocks ! 1)) = 1"
    by simp_all
  from r(1,2) l2 r01 c01 have e1: "\<exists>blocks rows.
      generateDataDrivenActions demo_env demo_inline 1 = concat blocks \<and>
      length blocks = length rows \<and> length rows = 2 \<and>
      inlineRow (filter wellFormedTriple (lines_of demo_inline) ! 0) = Some (rows ! 0) \<and>
      inlineRow (filter wellFormedTriple (lines_of demo_inline) ! 1) = Some (rows ! 1) \<and>
      length (filter (isClickOf ''login button'') (blocks ! 0)) = 1 \<and>
      length (filter (isClickOf ''login button'') (blocks ! 1)) = 1"
    by blast
  from t2 b have e2: "\<exists>blocks rows.
      generateDataDrivenActions demo_env demo_block 1 = concat blocks \<and>
      length blocks = length rows \<and> rows = blockScan (lines_of demo_block)"
    by blast
  from t1 a'' have e3: "parsePromptToActions 2 demo_env (prompt_of demo_inline) =
     generateDataDrivenActions demo_env (p_content (prompt_of demo_inline)) 1"
    by blast
  from a b c e1 e2 e3 show ?thesis by (simp only: simp_thms)
qed

theorem C7_counterexample:
  "filter wellFormedTriple (lines_of demo_block) = [] \<and>
   hasInlineDatasets demo_block \<and>
   map a_type (parsePromptToActions 2 demo_env (prompt_of demo_block)) =
   [Navigate, Fill, Fill, Click, Wait, Assert] \<and>
   length (filter (isClickOf ''login button'')
     (parsePromptToActions 2 demo_env (prompt_of demo_block))) = 1"
proof -
  note none = demo_block_has_no_triple
  have rows: "blockScan (lines_of demo_block) =
     [\<lparr>ds_username = ''Admin'', ds_password = ''admin123'', ds_expected = ''Dashboard''\<rparr>]"
    by code_simp
  have m: "isDataDrivenTest (toLowerCase demo_block) \<and> hasInlineDatasets demo_block \<and>
     includes_str (toLowerCase ''Dashboard'') ''dashboard'' \<and>
     \<not> includes_str (toLowerCase demo_block) ''logout''"
    by code_simp
  from none have ex: "extractInlineDatasets demo_block =
     [\<lparr>ds_username = ''Admin'', ds_password = ''admin123'', ds_expected = ''Dashboard''\<rparr>]"
    by (simp add: extractInlineDatasets_def Let_def inline_rows rows)
  have p: "parsePromptToActions 2 demo_env (prompt_of demo_block) =
     inlineRowActions demo_env demo_block 1 1 0
       \<lparr>ds_username = ''Admin'', ds_password = ''admin123'', ds_expected = ''Dashboard''\<rparr>"
    using m by (simp add: parsePromptToActions_def prompt_of_def generateDataDrivenActions_def
        generateInlineDataActions_def ex)
  have "map a_type (parsePromptToActions 2 demo_env (prompt_of demo_block)) =
     [Navigate, Fill, Fill, Click, Wait, Assert]"
    unfolding p using m
    by (simp add: inlineRowActions_def mk_navigate_def mk_fill_def mk_click_def mk_wait_def
        mk_assert_def act_def Let_def)
  moreover have "length (filter (isClickOf ''login button'')
     (parsePromptToActions 2 demo_env (prompt_of demo_block))) = 1"
    unfolding p by (rule block_click_login)
  ultimately show ?thesis using none m by blast
qed

text \<open>
  C8. The compiled sequence is a function of the prompt's text and of what the executor
  reads (its context and the \<open>test-data\<close> files): two prompts with the same text
  compile to the same sequence, whatever their file, title and tags, and whatever the
  depth of the call stack, from 2 on. The intent of a step is a function of its text
  alone: the first rule of the table that matches decides it, and every text gets one.
\<close>

theorem C8_same_text_same_sequence:
  "(p_content p = p_content p' \<longrightarrow>
      parsePromptToActions (Suc (Suc d)) e p = parsePromptToActions (Suc (Suc d')) e p') \<and>
   primaryAction (analyzeStepContext t) =
     (if matchesIntent t [''navigate'', ''open'', ''go to'', ''visit''] then navigate
      else if matchesIntent t [''login'', ''sign in'', ''authenticate'', ''enter credentials'']
      then login
      else if matchesIntent t [''enter'', ''input'', ''type'', ''fill'', ''provide'']
      then fill_form
      else if matchesIntent t [''click'', ''press'', ''select'', ''choose'', ''tap'']
      then click_element
      else if matchesIntent t [''verify'', ''check'', ''confirm'', ''validate'', ''assert'']
      then verify_element
      else if matchesIntent t [''wait'', ''pause'', ''delay''] then wait_action
      else if isComplexWorkflow t then complex_workflow
      else if isDataDrivenTest t then data_driven_test
      else unknown)"
proof -
  have "parsePromptToActions (Suc (Suc d)) e p = parsePromptToActions (Suc (Suc d')) e p'"
    if "p_content p = p_content p'"
    using that by (rule parsePrompt_text_only)
  moreover have "primaryAction (analyzeStepContext t) =
     (if matchesIntent t [''navigate'', ''open'', ''go to'', ''visit''] then navigate
      else if matchesIntent t [''login'', ''sign in'', ''authenticate'', ''enter credentials'']
      then login
      else if matchesIntent t [''enter'', ''input'', ''type'', ''fill'', ''provide'']
      then fill_form
      else if matchesIntent t [''click'', ''press'', ''select'', ''choose'', ''tap'']
      then click_element
      else if matchesIntent t [''verify'', ''check'', ''confirm'', ''validate'', ''assert'']
      then verify_element
      else if matchesIntent t [''wait'', ''pause'', ''delay''] then wait_action
      else if isComplexWorkflow t then complex_workflow
      else if isDataDrivenTest t then data_driven_test
      else unknown)"
    by (simp add: analyzeStepContext_def context0_def)
  ultimately show ?thesis by blast
qed

theorem C8_witness:
  "p_content (prompt_of demo_steps) =
   p_content \<lparr>p_file = ''other.txt'', p_title = ''Other'', p_content = demo_steps,
              p_tags = [''smoke'']\<rparr> \<and>
   parsePromptToActions (Suc (Suc 0)) demo_env (prompt_of demo_steps) =
   parsePromptToActions (Suc (Suc 5)) demo_env
     \<lparr>p_file = ''other.txt'', p_title = ''Other'', p_content = demo_steps,
      p_tags = [''smoke'']\<rparr> \<and>
   map a_type (parsePromptToActions (Suc (Suc 0)) demo_env (prompt_of demo_steps)) =
   [Navigate, Click, Click, Click, Wait]"
proof -
  have a: "p_content (prompt_of demo_steps) =
     p_content \<lparr>p_file = ''other.txt'', p_title = ''Other'', p_content = demo_steps,
                p_tags = [''smoke'']\<rparr>"
    by (simp add: prompt_of_def)
  have b: "map a_type (parsePromptToActions (Suc (Suc 0)) demo_env (prompt_of demo_steps)) =
     [Navigate, Click, Click, Click, Wait]"
    by code_simp
  from a b
    C8_same_text_same_sequence
      [of "prompt_of demo_steps"
          "\<lparr>p_file = ''other.txt'', p_title = ''Other'', p_content = demo_steps,
            p_tags = [''smoke'']\<rparr>" 0 demo_env 5]
  show ?thesis by blast
qed

text \<open>
  C9. The clickable element is looked up in the lower-cased step, so the step and its
  lower-cased form name the same element; \<open>triggersNavigation\<close> reads the step as
  written. \<open>Click the PIM link\<close> compiles to the one \<open>Click\<close> on the PIM navigation
  link, \<open>click the pim link\<close> to that \<open>Click\<close> followed by a \<open>Wait\<close> of 2000 ms.
\<close>

theorem C9_click_extraction_ignores_case_wait_check_does_not:
  "extractClickableElement step = extractClickableElement (toLowerCase step) \<and>
   extractClickableElement ''Click the PIM link'' = ''PIM navigation link'' \<and>
   extractClickableElement ''click the pim link'' = ''PIM navigation link'' \<and>
   \<not> triggersNavigation ''Click the PIM link'' \<and>
   triggersNavigation ''click the pim link'' \<and>
   parseSimpleStep (Suc d) e ''Click the PIM link'' n =
   [mk_click ''PIM navigation link'' (stepLabel n @ ''Click PIM navigation link'')] \<and>
   parseSimpleStep (Suc d) e ''click the pim link'' n =
   [mk_click ''PIM navigation link'' (stepLabel n @ ''Click PIM navigation link''),
    mk_wait 2000 (stepLabel n @ ''Wait for page transition'')]"
proof -
  have "extractClickableElement step = extractClickableElement (toLowerCase step)"
    by (simp add: extractClickableElement_def toLowerCase_idem)
  moreover have "extractClickableElement ''Click the PIM link'' = ''PIM navigation link'' \<and>
     extractClickableElement ''click the pim link'' = ''PIM navigation link'' \<and>
     \<not> triggersNavigation ''Click the PIM link'' \<and> triggersNavigation ''click the pim link''"
    by code_simp
  moreover have "parseSimpleStep (Suc d) e ''Click the PIM link'' n =
     [mk_click ''PIM navigation link'' (stepLabel n @ ''Click PIM navigation link'')]"
    by code_simp
  moreover have "parseSimpleStep (Suc d) e ''click the pim link'' n =
     [mk_click ''PIM navigation link'' (stepLabel n @ ''Click PIM navigation link''),
      mk_wait 2000 (stepLabel n @ ''Wait for page transition'')]"
    by code_simp
  ultimately show ?thesis by blast
qed

text \<open>
  C10. The block scan runs only when no line matched the one-line pattern. Lines before
  the first line containing \<open>dataset\<close> or \<open>test data\<close> are ignored, so labelled lines
  with no marker line before them give no row, and outside the section a line leaves
  the scan state as it is. A line adds a row only inside the section, when it carries
  the \<open>expected\<close> label and the accumulator, after the line's own username and
  password labels have been read, holds a non-empty username and password; the row is
  made of these and of the expected value, and the accumulator is emptied. Lines after
  the last \<open>expected\<close> label add nothing: an accumulator left incomplete at the end
  of the text is dropped.
\<close>

theorem C10_block_scan_needs_marker_and_complete_accumulator:
  "extractInlineDatasets text =
     (if List.map_filter inlineRow (lines_of text) = [] then blockScan (lines_of text)
      else List.map_filter inlineRow (lines_of text)) \<and>
   ((\<forall>l \<in> set pre. \<not> markerLine l) \<longrightarrow> blockScan (pre @ ls) = blockScan ls) \<and>
   (\<not> inDatasetSection st \<and> \<not> markerLine l \<longrightarrow> scanLine st l = st) \<and>
   (datasets (scanLine st' l') \<noteq> datasets st' \<longrightarrow>
      inDatasetSection st' \<and> \<not> markerLine l' \<and> labelLine ''expected'' l' \<and>
      (\<exists>u p x x0. u \<noteq> [] \<and> p \<noteq> [] \<and> x \<noteq> [] \<and>
         heldAfter ''username'' (cur_username st') l' = Some u \<and>
         heldAfter ''password'' (cur_password st') l' = Some p \<and>
         rx_group expected_rx 1 l' = Some x0 \<and> trim x0 = x \<and>
         datasets (scanLine st' l') =
           datasets st' @ [\<lparr>ds_username = u, ds_password = p, ds_expected = x\<rparr>] \<and>
         cur_username (scanLine st' l') = None \<and> cur_password (scanLine st' l') = None \<and>
         cur_expected (scanLine st' l') = None)) \<and>
   ((\<forall>l \<in> set rest. \<not> labelLine ''expected'' l) \<longrightarrow> blockScan (ls' @ rest) = blockScan ls')"
proof -
  have "extractInlineDatasets text =
     (if List.map_filter inlineRow (lines_of text) = [] then blockScan (lines_of text)
      else List.map_filter inlineRow (lines_of text))"
    by (simp add: extractInlineDatasets_def Let_def)
  moreover have "(\<forall>l \<in> set pre. \<not> markerLine l) \<longrightarrow> blockScan (pre @ ls) = blockScan ls"
    using blockScan_before_marker by blast
  moreover have "\<not> inDatasetSection st \<and> \<not> markerLine l \<longrightarrow> scanLine st l = st"
    using scanLine_outside by blast
  moreover have "(\<forall>l \<in> set rest. \<not> labelLine ''expected'' l) \<longrightarrow>
      blockScan (ls' @ rest) = blockScan ls'"
    using blockScan_trailing by blast
  ultimately show ?thesis using scanLine_emits [of st' l'] by blast
qed

theorem C10_witness:
  "\<not> markerLine ''username: a'' \<and> \<not> markerLine ''password: b'' \<and>
   \<not> markerLine ''expected: c'' \<and>
   blockScan ([''username: a'', ''password: b'', ''expected: c''] @ []) = blockScan [] \<and>
   blockScan [] = [] \<and>
   \<not> inDatasetSection scan0 \<and>
   scanLine scan0 ''username: a'' = scan0 \<and>
   datasets (scanLine demo_scan ''Expected: Dashboard'') \<noteq> datasets demo_scan \<and>
   datasets (scanLine demo_scan ''Expected: Dashboard'') =
     [\<lparr>ds_username = ''Admin'', ds_password = ''admin123'', ds_expected = ''Dashboard''\<rparr>] \<and>
   labelLine ''expected'' ''Expected: Dashboard'' \<and>
   \<not> labelLine ''expected'' ''Username: bob'' \<and> \<not> labelLine ''expected'' ''Password: wrong'' \<and>
   blockScan ([''Test data'', ''Username: Admin'', ''Password: admin123'', ''Expected: Dashboard''] @
              [''Username: bob'', ''Password: wrong'']) =
   blockScan [''Test data'', ''Username: Admin'', ''Password: admin123'', ''Expected: Dashboard''] \<and>
   blockScan [''Test data'', ''Username: Admin'', ''Password: admin123'', ''Expected: Dashboard''] =
     [\<lparr>ds_username = ''Admin'', ds_password = ''admin123'', ds_expected = ''Dashboard''\<rparr>]"
proof -
  have a: "\<not> markerLine ''username: a'' \<and> \<not> markerLine ''password: b'' \<and>
     \<not> markerLine ''expected: c''"
    by code_simp
  then have a': "\<forall>l \<in> set [''username: a'', ''password: b'', ''expected: c'']. \<not> markerLine l"
    by simp
  have b: "\<not> inDatasetSection scan0"
    by (simp add: scan0_def)
  have c: "datasets (scanLine demo_scan ''Expected: Dashboard'') \<noteq> datasets demo_scan \<and>
     datasets (scanLine demo_scan ''Expected: Dashboard'') =
       [\<lparr>ds_username = ''Admin'', ds_password = ''admin123'', ds_expected = ''Dashboard''\<rparr>]"
    by code_simp
  have d: "\<not> labelLine ''expected'' ''Username: bob'' \<and>
     \<not> labelLine ''expected'' ''Password: wrong''"
    by code_simp
  then have d': "\<forall>l \<in> set [''Username: bob'', ''Password: wrong'']. \<not> labelLine ''expected'' l"
    by simp
  have f: "blockScan [] = [] \<and>
     blockScan [''Test data'', ''Username: Admin'', ''Password: admin123'', ''Expected: Dashboard''] =
       [\<lparr>ds_username = ''Admin'', ds_password = ''admin123'', ds_expected = ''Dashboard''\<rparr>]"
    by code_simp
  from a a' b c d d' f
    C10_block_scan_needs_marker_and_complete_accumulator
      [of "[]" "[''username: a'', ''password: b'', ''expected: c'']" "[]" scan0 "''username: a''"
          demo_scan "''Expected: Dashboard''" "[''Username: bob'', ''Password: wrong'']"
          "[''Test data'', ''Username: Admin'', ''Password: admin123'', ''Expected: Dashboard'']"]
  show ?thesis by blast
qed

end
